theory Spec2Isabelle
  imports Main
begin

section \<open>Data model (AST.h)\<close>

text \<open>
  \<^verbatim>\<open>struct CaptureGroup { size_t startIndex; size_t endIndex; bool valid; }\<close> and
  \<^verbatim>\<open>struct MatchContext\<close>. A \<^verbatim>\<open>size_t\<close> offset is a \<open>nat\<close>: the only arithmetic on
  \<open>position\<close> is \<^verbatim>\<open>position++\<close> behind the guard \<^verbatim>\<open>!atEnd()\<close>, so it never exceeds
  the length of the input and cannot wrap. \<^verbatim>\<open>std::optional<CaptureGroup>\<close> is an
  \<open>option\<close>, the vector of captures a list.
\<close>

record CaptureGroup =
  startIndex :: nat
  endIndex :: nat
  valid :: bool

record MatchContext =
  input :: string
  position :: nat
  captures :: "CaptureGroup option list"
  ignoreCase :: bool

definition atEnd :: "MatchContext \<Rightarrow> bool" where
  "atEnd ctx = (position ctx \<ge> length (input ctx))"

definition currentChar :: "MatchContext \<Rightarrow> char" where
  "currentChar ctx = (if atEnd ctx then CHR 0x00 else input ctx ! position ctx)"

text \<open>
  What running the program can end in besides a returned value:
  \<^item> \<open>NullDeref\<close>: a call through a null \<^verbatim>\<open>shared_ptr\<close> (undefined behaviour, in
    practice a segmentation fault);
  \<^item> \<open>IntOverflow\<close>: an \<^verbatim>\<open>int\<close> incremented at \<^verbatim>\<open>INT_MAX\<close> (undefined behaviour);
  \<^item> \<open>StoiOutOfRange\<close>: \<^verbatim>\<open>std::stoi\<close> throws \<^verbatim>\<open>std::out_of_range\<close>, which nothing
    catches;
  \<^item> \<open>SubstrOutOfRange\<close>: \<^verbatim>\<open>std::string::substr\<close> throws \<^verbatim>\<open>std::out_of_range\<close> for a
    start beyond the end of the string;
  \<^item> \<open>OutOfFuel\<close>: the \<^verbatim>\<open>while(true)\<close> loop of \<^verbatim>\<open>StarNode::match\<close> did not leave
    within the number of iterations the model was given. A call that is
    \<open>Inl OutOfFuel\<close> for every amount of fuel does not return.
\<close>

datatype error = NullDeref | IntOverflow | StoiOutOfRange | SubstrOutOfRange | OutOfFuel

type_synonym outcome = "error + bool \<times> MatchContext"

section \<open>The node hierarchy (Nodes.h)\<close>

text \<open>
  One constructor per subclass of \<^verbatim>\<open>ASTNode\<close>, with the fields of the class. The child
  of a \<^verbatim>\<open>GroupNode\<close> is an \<open>option\<close> because \<^verbatim>\<open>parseGroup\<close> passes the result of
  \<^verbatim>\<open>parseExpr\<close> on without a null check; every other child pointer the parser stores
  has been checked (\<^verbatim>\<open>addChild\<close>, \<^verbatim>\<open>parseExpr\<close>) or freshly made.
\<close>

datatype node =
    CharacterNode char
  | DotNode
  | SequenceNode "node list"
  | OrNode node node
  | GroupNode "node option" int
  | StarNode node
  | CountNode node int
  | IgnoreCaseNode node
  | OutputGroupNode int

text \<open>
  \<^verbatim>\<open>std::tolower\<close> in the "C" locale: the letters A to Z move to a to z. (For a \<^verbatim>\<open>char\<close>
  with the top bit set the call is undefined where \<^verbatim>\<open>char\<close> is signed; the model leaves such
  a character as it is, as the C library does in practice.)
\<close>

definition tolower :: "char \<Rightarrow> char" where
  "tolower c = (let n = (of_char c :: nat) in if 65 \<le> n \<and> n \<le> 90 then char_of (n + 32) else c)"

text \<open>\<^verbatim>\<open>vector::resize(n, std::nullopt)\<close>: truncate, or pad with absent slots.\<close>

definition resize :: "nat \<Rightarrow> 'a option list \<Rightarrow> 'a option list" where
  "resize n xs = take n xs @ replicate (n - length xs) None"

text \<open>
  The loop of \<^verbatim>\<open>SequenceNode::match\<close> over the children, each child given as its
  matching function; \<open>savedPos\<close> is the position at entry of the node.
\<close>

fun seq_loop :: "(MatchContext \<Rightarrow> outcome) list \<Rightarrow> nat \<Rightarrow> MatchContext \<Rightarrow> outcome" where
  "seq_loop [] savedPos ctx = Inr (True, ctx)"
| "seq_loop (m # ms) savedPos ctx =
     (case m ctx of
        Inl e \<Rightarrow> Inl e
      | Inr (ok, ctx') \<Rightarrow>
          if \<not> ok then Inr (False, ctx'\<lparr>position := savedPos\<rparr>)
          else seq_loop ms savedPos ctx')"

text \<open>
  The \<^verbatim>\<open>while(true)\<close> loop of \<^verbatim>\<open>StarNode::match\<close>. Each iteration saves the position,
  calls the child, and either leaves (restoring the position saved by this iteration)
  or increments the \<^verbatim>\<open>int count\<close>. The first argument bounds the iterations.
\<close>

fun star_loop :: "nat \<Rightarrow> (MatchContext \<Rightarrow> outcome) \<Rightarrow> int \<Rightarrow> MatchContext \<Rightarrow> outcome" where
  "star_loop 0 m count ctx = Inl OutOfFuel"
| "star_loop (Suc fuel) m count ctx =
     (case m ctx of
        Inl e \<Rightarrow> Inl e
      | Inr (ok, ctx') \<Rightarrow>
          if \<not> ok then Inr (count \<ge> 1, ctx'\<lparr>position := position ctx\<rparr>)
          else if count = 2147483647 then Inl IntOverflow
          else star_loop fuel m (count + 1) ctx')"

text \<open>
  The \<^verbatim>\<open>for (int i = 0; i < count; i++)\<close> loop of \<^verbatim>\<open>CountNode::match\<close>; the first
  argument is the number of iterations left.
\<close>

fun count_loop :: "nat \<Rightarrow> (MatchContext \<Rightarrow> outcome) \<Rightarrow> nat \<Rightarrow> MatchContext \<Rightarrow> outcome" where
  "count_loop 0 m savedPos ctx = Inr (True, ctx)"
| "count_loop (Suc k) m savedPos ctx =
     (case m ctx of
        Inl e \<Rightarrow> Inl e
      | Inr (ok, ctx') \<Rightarrow>
          if \<not> ok then Inr (False, ctx'\<lparr>position := savedPos\<rparr>)
          else count_loop k m savedPos ctx')"

text \<open>The capture write of \<^verbatim>\<open>GroupNode::match\<close>.\<close>

definition store_capture :: "int \<Rightarrow> nat \<Rightarrow> nat \<Rightarrow> MatchContext \<Rightarrow> MatchContext" where
  "store_capture groupIndex startPos endPos ctx =
     (if groupIndex \<ge> 0 then
        (let caps = (if groupIndex \<ge> int (length (captures ctx))
                     then resize (nat (groupIndex + 1)) (captures ctx)
                     else captures ctx)
         in ctx\<lparr>captures :=
              caps[nat groupIndex := Some \<lparr>startIndex = startPos, endIndex = endPos, valid = True\<rparr>]\<rparr>)
      else ctx)"

text \<open>
  The virtual \<^verbatim>\<open>match\<close>, by recursion on the tree. The result is the returned \<^verbatim>\<open>bool\<close>
  with the context as the call left it. The \<open>nat\<close> is the bound handed to every
  \<^verbatim>\<open>StarNode\<close> loop.
\<close>

primrec match :: "node \<Rightarrow> nat \<Rightarrow> MatchContext \<Rightarrow> outcome" where
  "match (CharacterNode ch) fuel ctx =
     (if atEnd ctx then Inr (False, ctx)
      else
        (let inputChar = currentChar ctx in
         if ignoreCase ctx then
           (if tolower inputChar = tolower ch
            then Inr (True, ctx\<lparr>position := position ctx + 1\<rparr>)
            else Inr (False, ctx))
         else
           (if inputChar = ch
            then Inr (True, ctx\<lparr>position := position ctx + 1\<rparr>)
            else Inr (False, ctx))))"
| "match DotNode fuel ctx =
     (if atEnd ctx then Inr (False, ctx)
      else Inr (True, ctx\<lparr>position := position ctx + 1\<rparr>))"
| "match (SequenceNode children) fuel ctx =
     seq_loop (map (\<lambda>c. match c fuel) children) (position ctx) ctx"
| "match (OrNode lhs rhs) fuel ctx =
     (case match lhs fuel ctx of
        Inl e \<Rightarrow> Inl e
      | Inr (ok, ctx1) \<Rightarrow>
          if ok then Inr (True, ctx1)
          else match rhs fuel (ctx1\<lparr>position := position ctx\<rparr>))"
| "match (GroupNode expr groupIndex) fuel ctx =
     (case map_option (\<lambda>e. match e fuel) expr of
        None \<Rightarrow> Inl NullDeref
      | Some m \<Rightarrow>
          (case m ctx of
             Inl e \<Rightarrow> Inl e
           | Inr (ok, ctx1) \<Rightarrow>
               if \<not> ok then Inr (False, ctx1)
               else Inr (True, store_capture groupIndex (position ctx) (position ctx1) ctx1)))"
| "match (StarNode expr) fuel ctx = star_loop fuel (match expr fuel) 0 ctx"
| "match (CountNode expr count) fuel ctx =
     count_loop (nat count) (match expr fuel) (position ctx) ctx"
| "match (IgnoreCaseNode expr) fuel ctx =
     (case match expr fuel (ctx\<lparr>ignoreCase := True\<rparr>) of
        Inl e \<Rightarrow> Inl e
      | Inr (ok, ctx1) \<Rightarrow> Inr (ok, ctx1\<lparr>ignoreCase := ignoreCase ctx\<rparr>))"
| "match (OutputGroupNode idx) fuel ctx = Inr (True, ctx)"

section \<open>The search driver (main.cpp)\<close>

text \<open>
  One iteration of the loop of \<^verbatim>\<open>findMatch\<close> builds the context
  \<^verbatim>\<open>{ text, start, captures, false }\<close> from the caller's vector (which the loop never
  writes before it returns) and resizes the copy to one slot.
\<close>

definition attempt :: "node \<Rightarrow> nat \<Rightarrow> string \<Rightarrow> CaptureGroup option list \<Rightarrow> nat \<Rightarrow> outcome" where
  "attempt ast fuel txt caps start =
     match ast fuel \<lparr>input = txt, position = start, captures = resize 1 caps, ignoreCase = False\<rparr>"

text \<open>
  \<^verbatim>\<open>findMatch\<close> from offset \<open>start\<close> on. The result is the returned offset (\<open>None\<close> for
  \<^verbatim>\<open>npos\<close>) and the caller's vector after the call.
\<close>

function findMatch_from ::
  "node \<Rightarrow> nat \<Rightarrow> string \<Rightarrow> CaptureGroup option list \<Rightarrow> nat \<Rightarrow> error + nat option \<times> CaptureGroup option list"
where
  "findMatch_from ast fuel txt caps start =
     (if start \<le> length txt then
        (case attempt ast fuel txt caps start of
           Inl e \<Rightarrow> Inl e
         | Inr (ok, ctx) \<Rightarrow>
             if ok then
               Inr (Some start,
                    if captures ctx ! 0 = None
                    then (captures ctx)[0 := Some \<lparr>startIndex = start, endIndex = position ctx, valid = True\<rparr>]
                    else captures ctx)
             else findMatch_from ast fuel txt caps (start + 1))
      else Inr (None, caps))"
  by pat_completeness auto
termination
  by (relation "measure (\<lambda>(ast, fuel, txt, caps, start). Suc (length txt) - start)") auto

declare findMatch_from.simps [simp del]

definition findMatch ::
  "node \<Rightarrow> nat \<Rightarrow> string \<Rightarrow> CaptureGroup option list \<Rightarrow> error + nat option \<times> CaptureGroup option list"
where
  "findMatch ast fuel txt caps = findMatch_from ast fuel txt caps 0"

section \<open>The pattern parser (Parser.cpp)\<close>

text \<open>
  \<^verbatim>\<open>struct Cursor { const std::string& text; size_t pos; }\<close> with its member functions
  (\<^verbatim>\<open>retreat\<close> is never called). \<^verbatim>\<open>advance\<close> increments only before the end, so \<open>pos\<close>
  never exceeds the length of the text and is a \<open>nat\<close>.
\<close>

record Cursor =
  text_cur :: string
  pos :: nat

definition end_cur :: "Cursor \<Rightarrow> bool" where
  "end_cur cur = (pos cur \<ge> length (text_cur cur))"

definition current :: "Cursor \<Rightarrow> char" where
  "current cur = (if end_cur cur then CHR 0x00 else text_cur cur ! pos cur)"

definition advance :: "Cursor \<Rightarrow> Cursor" where
  "advance cur = (if \<not> end_cur cur then cur\<lparr>pos := pos cur + 1\<rparr> else cur)"

definition matchChar :: "Cursor \<Rightarrow> char \<Rightarrow> bool \<times> Cursor" where
  "matchChar cur c = (if \<not> end_cur cur \<and> current cur = c then (True, advance cur) else (False, cur))"

text \<open>\<^verbatim>\<open>std::isdigit\<close>, and the loop that collects the digits of a number.\<close>

definition isdigit :: "char \<Rightarrow> bool" where
  "isdigit c = (c \<in> set ''0123456789'')"

function digits_loop :: "string \<Rightarrow> Cursor \<Rightarrow> string \<times> Cursor" where
  "digits_loop digits cur =
     (if \<not> end_cur cur \<and> isdigit (current cur)
      then digits_loop (digits @ [current cur]) (advance cur)
      else (digits, cur))"
  by pat_completeness auto
termination
  by (relation "measure (\<lambda>(digits, cur). length (text_cur cur) - pos cur)")
     (auto simp: advance_def end_cur_def)

declare digits_loop.simps [simp del]

text \<open>
  \<^verbatim>\<open>std::stoi\<close> on a non-empty string of digits: the decimal value, or the exception
  \<^verbatim>\<open>std::out_of_range\<close> when it does not fit an \<^verbatim>\<open>int\<close> (32 bits).
\<close>

definition digit_value :: "char \<Rightarrow> int" where
  "digit_value c = int (of_char c) - 48"

definition stoi :: "string \<Rightarrow> error + int" where
  "stoi digits =
     (let n = foldl (\<lambda>acc c. 10 * acc + digit_value c) 0 digits
      in if n > 2147483647 then Inl StoiOutOfRange else Inr n)"

text \<open>
  \<^verbatim>\<open>parseCount\<close> and \<^verbatim>\<open>parseIgnoreCase\<close> return the new node or \<^verbatim>\<open>nullptr\<close>, and leave
  the cursor where they stopped: \<^verbatim>\<open>parseCount\<close> does not move it back when it gives up
  after a brace.
\<close>

definition parseCount :: "node \<Rightarrow> Cursor \<Rightarrow> error + node option \<times> Cursor" where
  "parseCount base cur =
     (let (star, cur1) = matchChar cur (CHR ''*'') in
      if star then Inr (Some (StarNode base), cur1)
      else if \<not> end_cur cur1 \<and> current cur1 = CHR ''{'' then
        (let (digits, cur2) = digits_loop [] (advance cur1);
             (closed, cur3) = matchChar cur2 (CHR ''}'')
         in if \<not> closed then Inr (None, cur3)
            else if digits = [] then Inr (None, cur3)
            else (case stoi digits of
                    Inl e \<Rightarrow> Inl e
                  | Inr n \<Rightarrow> Inr (Some (CountNode base n), cur3)))
      else Inr (None, cur1))"

definition parseIgnoreCase :: "node \<Rightarrow> Cursor \<Rightarrow> node option \<times> Cursor" where
  "parseIgnoreCase base cur =
     (if \<not> end_cur cur \<and> current cur = CHR 0x5C then
        (let savedPos = pos cur; cur1 = advance cur in
         if \<not> end_cur cur1 \<and> (current cur1 = CHR ''I'' \<or> current cur1 = CHR ''i'')
         then (Some (IgnoreCaseNode base), advance cur1)
         else (None, cur1\<lparr>pos := savedPos\<rparr>))
      else (None, cur))"

text \<open>
  The lines that \<^verbatim>\<open>parseFactor\<close> (twice) and \<^verbatim>\<open>parseGroup\<close> run on a fresh \<open>base\<close> node:
  \<^verbatim>\<open>expanded = parseCount(base, cur); if (expanded) base = expanded;
  expanded = parseIgnoreCase(base, cur); if (expanded) base = expanded; return base;\<close>
\<close>

definition parseSuffix :: "node \<Rightarrow> Cursor \<Rightarrow> error + node \<times> Cursor" where
  "parseSuffix base cur =
     (case parseCount base cur of
        Inl e \<Rightarrow> Inl e
      | Inr (expanded, cur1) \<Rightarrow>
          (let base1 = (case expanded of Some n \<Rightarrow> n | None \<Rightarrow> base);
               (expanded2, cur2) = parseIgnoreCase base1 cur1
           in Inr (case expanded2 of Some n \<Rightarrow> n | None \<Rightarrow> base1, cur2)))"

text \<open>The test \<^verbatim>\<open>std::string("+*().{}\\").find(c) != npos\<close>.\<close>

definition special :: "char \<Rightarrow> bool" where
  "special c = (c \<in> set (''+*().{}'' @ [CHR 0x5C]))"

text \<open>
  The recursive descent. Each function returns the node (\<open>None\<close> for \<^verbatim>\<open>nullptr\<close>), the
  cursor as it leaves it, and the value of the static \<^verbatim>\<open>groupCounter\<close>, which
  \<^verbatim>\<open>parseGroup\<close> reads and increments. The two \<open>_loop\<close> functions are the \<^verbatim>\<open>while\<close>
  loops of \<^verbatim>\<open>parseExpr\<close> and \<^verbatim>\<open>parseTerm\<close>; \<open>children\<close> is the vector of the
  \<^verbatim>\<open>SequenceNode\<close> under construction.
\<close>

type_synonym parsed = "error + node option \<times> Cursor \<times> int"

function parseExpr :: "Cursor \<Rightarrow> int \<Rightarrow> parsed"
  and parseExpr_loop :: "node \<Rightarrow> Cursor \<Rightarrow> int \<Rightarrow> parsed"
  and parseTerm :: "Cursor \<Rightarrow> int \<Rightarrow> parsed"
  and parseTerm_loop :: "node list \<Rightarrow> Cursor \<Rightarrow> int \<Rightarrow> parsed"
  and parseFactor :: "Cursor \<Rightarrow> int \<Rightarrow> parsed"
  and parseGroup :: "Cursor \<Rightarrow> int \<Rightarrow> parsed"
where
  "parseExpr cur gc =
     (case parseTerm cur gc of
        Inl e \<Rightarrow> Inl e
      | Inr (None, cur1, gc1) \<Rightarrow> Inr (None, cur1, gc1)
      | Inr (Some left, cur1, gc1) \<Rightarrow> parseExpr_loop left cur1 gc1)"
| "parseExpr_loop left cur gc =
     (if fst (matchChar cur (CHR ''+'')) then
        (case parseTerm (snd (matchChar cur (CHR ''+''))) gc of
           Inl e \<Rightarrow> Inl e
         | Inr (None, cur1, gc1) \<Rightarrow> Inr (None, cur1, gc1)
         | Inr (Some right, cur1, gc1) \<Rightarrow> parseExpr_loop (OrNode left right) cur1 gc1)
      else Inr (Some left, cur, gc))"
| "parseTerm cur gc = parseTerm_loop [] cur gc"
| "parseTerm_loop children cur gc =
     (case parseFactor cur gc of
        Inl e \<Rightarrow> Inl e
      | Inr (None, cur1, gc1) \<Rightarrow>
          Inr (if children \<noteq> [] then Some (SequenceNode children) else None, cur1, gc1)
      | Inr (Some f, cur1, gc1) \<Rightarrow> parseTerm_loop (children @ [f]) cur1 gc1)"
| "parseFactor cur gc =
     (if fst (matchChar cur (CHR ''('')) then parseGroup (snd (matchChar cur (CHR ''(''))) gc
      else if \<not> end_cur cur \<and> current cur = CHR ''.'' then
        (case parseSuffix DotNode (advance cur) of
           Inl e \<Rightarrow> Inl e
         | Inr (base, cur1) \<Rightarrow> Inr (Some base, cur1, gc))
      else if \<not> end_cur cur \<and> \<not> special (current cur) then
        (case parseSuffix (CharacterNode (current cur)) (advance cur) of
           Inl e \<Rightarrow> Inl e
         | Inr (base, cur1) \<Rightarrow> Inr (Some base, cur1, gc))
      else Inr (None, cur, gc))"
| "parseGroup cur gc =
     (case parseExpr cur gc of
        Inl e \<Rightarrow> Inl e
      | Inr (e, cur1, gc1) \<Rightarrow>
          if \<not> fst (matchChar cur1 (CHR '')'')) then Inr (None, cur1, gc1)
          else if gc1 = 2147483647 then Inl IntOverflow
          else
            (case parseSuffix (GroupNode e gc1) (snd (matchChar cur1 (CHR '')''))) of
               Inl e \<Rightarrow> Inl e
             | Inr (base, cur2) \<Rightarrow> Inr (Some base, cur2, gc1 + 1)))"
  by pat_completeness auto


text \<open>
  Termination: no call moves the cursor back, and a factor that is returned has consumed
  at least one character.
\<close>

definition remaining :: "Cursor \<Rightarrow> nat" where
  "remaining cur = length (text_cur cur) - pos cur"

lemma remaining_advance_le: "remaining (advance cur) \<le> remaining cur"
  by (cases "end_cur cur") (simp_all add: remaining_def advance_def diff_le_mono2)

lemma remaining_advance_less: "\<not> end_cur cur \<Longrightarrow> remaining (advance cur) < remaining cur"
  by (simp add: remaining_def advance_def end_cur_def)

lemma remaining_matchChar_le: "remaining (snd (matchChar cur c)) \<le> remaining cur"
  by (simp add: matchChar_def remaining_advance_le)

lemma remaining_matchChar_less:
  "fst (matchChar cur c) \<Longrightarrow> remaining (snd (matchChar cur c)) < remaining cur"
  by (simp add: matchChar_def remaining_advance_less split: if_splits)

lemma remaining_digits_loop: "remaining (snd (digits_loop ds cur)) \<le> remaining cur"
proof (induction ds cur rule: digits_loop.induct)
  case (1 digits cur)
  show ?case
  proof (cases "\<not> end_cur cur \<and> isdigit (current cur)")
    case True
    then have "remaining (snd (digits_loop digits cur))
        = remaining (snd (digits_loop (digits @ [current cur]) (advance cur)))"
      by (subst digits_loop.simps) simp
    also have "\<dots> \<le> remaining (advance cur)" using 1 True by simp
    also have "\<dots> \<le> remaining cur" by (rule remaining_advance_le)
    finally show ?thesis .
  next
    case False
    then show ?thesis by (subst digits_loop.simps) auto
  qed
qed


lemma remaining_parseCount:
  assumes "parseCount base cur = Inr (r, cur')"
  shows "remaining cur' \<le> remaining cur"
proof -
  obtain star cur1 where m1: "matchChar cur (CHR ''*'') = (star, cur1)" by force
  obtain digits cur2 where d: "digits_loop [] (advance cur1) = (digits, cur2)" by force
  obtain closed cur3 where m3: "matchChar cur2 (CHR ''}'') = (closed, cur3)" by force
  have a: "remaining cur1 \<le> remaining cur"
    using remaining_matchChar_le [of cur "CHR ''*''"] m1 by simp
  have "remaining cur2 \<le> remaining (advance cur1)"
    using remaining_digits_loop [of "[]" "advance cur1"] d by simp
  then have b: "remaining cur2 \<le> remaining cur"
    using a remaining_advance_le [of cur1] by linarith
  have c: "remaining cur3 \<le> remaining cur"
    using remaining_matchChar_le [of cur2 "CHR ''}''"] m3 b by simp
  have "cur' = cur1 \<or> cur' = cur3"
    using assms m1 d m3
    by (simp add: parseCount_def split: if_splits sum.splits)
  then show ?thesis using a c by auto
qed

lemma remaining_parseIgnoreCase: "remaining (snd (parseIgnoreCase base cur)) \<le> remaining cur"
proof -
  have "remaining (advance (advance cur)) \<le> remaining cur"
    using remaining_advance_le order_trans by blast
  moreover have "remaining ((advance cur)\<lparr>pos := pos cur\<rparr>) \<le> remaining cur"
    by (simp add: remaining_def advance_def)
  ultimately show ?thesis
    by (simp add: parseIgnoreCase_def Let_def)
qed

lemma remaining_parseSuffix:
  assumes "parseSuffix base cur = Inr (n, cur')"
  shows "remaining cur' \<le> remaining cur"
proof -
  obtain expanded cur1 where pc: "parseCount base cur = Inr (expanded, cur1)"
    using assms by (auto simp: parseSuffix_def split: sum.splits)
  define base1 where "base1 = (case expanded of Some n \<Rightarrow> n | None \<Rightarrow> base)"
  have "cur' = snd (parseIgnoreCase base1 cur1)"
    using assms pc by (auto simp: parseSuffix_def base1_def Let_def split: prod.splits)
  then have "remaining cur' \<le> remaining cur1"
    using remaining_parseIgnoreCase by simp
  then show ?thesis
    using remaining_parseCount [OF pc] by linarith
qed

lemma parse_progress_dom:
  "parseExpr_parseExpr_loop_parseTerm_parseTerm_loop_parseFactor_parseGroup_dom (Inl (Inl (c1, g1)))
     \<Longrightarrow> (\<forall>r c g. parseExpr c1 g1 = Inr (r, c, g) \<longrightarrow> remaining c \<le> remaining c1)"
  "parseExpr_parseExpr_loop_parseTerm_parseTerm_loop_parseFactor_parseGroup_dom (Inl (Inr (Inl (l2, c2, g2))))
     \<Longrightarrow> (\<forall>r c g. parseExpr_loop l2 c2 g2 = Inr (r, c, g) \<longrightarrow> remaining c \<le> remaining c2)"
  "parseExpr_parseExpr_loop_parseTerm_parseTerm_loop_parseFactor_parseGroup_dom (Inl (Inr (Inr (c3, g3))))
     \<Longrightarrow> (\<forall>r c g. parseTerm c3 g3 = Inr (r, c, g) \<longrightarrow> remaining c \<le> remaining c3)"
  "parseExpr_parseExpr_loop_parseTerm_parseTerm_loop_parseFactor_parseGroup_dom (Inr (Inl (s4, c4, g4)))
     \<Longrightarrow> (\<forall>r c g. parseTerm_loop s4 c4 g4 = Inr (r, c, g) \<longrightarrow> remaining c \<le> remaining c4)"
  "parseExpr_parseExpr_loop_parseTerm_parseTerm_loop_parseFactor_parseGroup_dom (Inr (Inr (Inl (c5, g5))))
     \<Longrightarrow> (\<forall>r c g. parseFactor c5 g5 = Inr (r, c, g) \<longrightarrow>
            remaining c \<le> remaining c5 \<and> (r \<noteq> None \<longrightarrow> remaining c < remaining c5))"
  "parseExpr_parseExpr_loop_parseTerm_parseTerm_loop_parseFactor_parseGroup_dom (Inr (Inr (Inr (c6, g6))))
     \<Longrightarrow> (\<forall>r c g. parseGroup c6 g6 = Inr (r, c, g) \<longrightarrow> remaining c \<le> remaining c6)"
proof (induction rule: parseExpr_parseExpr_loop_parseTerm_parseTerm_loop_parseFactor_parseGroup.pinduct)
  case (1 cur gc)
  show ?case
  proof (intro allI impI)
    fix r c g
    assume res: "parseExpr cur gc = Inr (r, c, g)"
    show "remaining c \<le> remaining cur"
    proof (cases "parseTerm cur gc")
      case (Inl e)
      with res 1(1) show ?thesis by (simp add: parseExpr.psimps)
    next
      case (Inr t)
      obtain r1 c1 g1 where t: "t = (r1, c1, g1)" by (cases t) auto
      have le1: "remaining c1 \<le> remaining cur" using 1(2) Inr t by simp
      show ?thesis
      proof (cases r1)
        case None
        with res 1(1) Inr t le1 show ?thesis by (simp add: parseExpr.psimps)
      next
        case (Some left)
        have "parseExpr_loop left c1 g1 = Inr (r, c, g)"
          using res 1(1) Inr t Some by (simp add: parseExpr.psimps)
        moreover have "\<forall>r c g. parseExpr_loop left c1 g1 = Inr (r, c, g) \<longrightarrow> remaining c \<le> remaining c1"
          using 1(3) [OF Inr _ Some] t by simp
        ultimately show ?thesis using le1 by (meson order_trans)
      qed
    qed
  qed
next
  case (2 left cur gc)
  show ?case
  proof (intro allI impI)
    fix r c g
    assume res: "parseExpr_loop left cur gc = Inr (r, c, g)"
    show "remaining c \<le> remaining cur"
    proof (cases "fst (matchChar cur (CHR ''+''))")
      case False
      with res 2(1) show ?thesis by (simp add: parseExpr_loop.psimps)
    next
      case True
      let ?c0 = "snd (matchChar cur (CHR ''+''))"
      have le0: "remaining ?c0 \<le> remaining cur" by (rule remaining_matchChar_le)
      show ?thesis
      proof (cases "parseTerm ?c0 gc")
        case (Inl e)
        with res 2(1) True show ?thesis by (simp add: parseExpr_loop.psimps)
      next
        case (Inr t)
        obtain r1 c1 g1 where t: "t = (r1, c1, g1)" by (cases t) auto
        have le1: "remaining c1 \<le> remaining ?c0" using 2(2) [OF True] Inr t by simp
        show ?thesis
        proof (cases r1)
          case None
          with res 2(1) True Inr t le1 le0 show ?thesis by (simp add: parseExpr_loop.psimps)
        next
          case (Some right)
          have "parseExpr_loop (OrNode left right) c1 g1 = Inr (r, c, g)"
            using res 2(1) True Inr t Some by (simp add: parseExpr_loop.psimps)
          moreover have "\<forall>r c g. parseExpr_loop (OrNode left right) c1 g1 = Inr (r, c, g)
              \<longrightarrow> remaining c \<le> remaining c1"
            using 2(3) [OF True Inr _ Some] t by simp
          ultimately have "remaining c \<le> remaining c1" by blast
          then show ?thesis using le1 le0 by linarith
        qed
      qed
    qed
  qed
next
  case (3 cur gc)
  then show ?case by (simp add: parseTerm.psimps)
next
  case (4 children cur gc)
  show ?case
  proof (intro allI impI)
    fix r c g
    assume res: "parseTerm_loop children cur gc = Inr (r, c, g)"
    show "remaining c \<le> remaining cur"
    proof (cases "parseFactor cur gc")
      case (Inl e)
      with res 4(1) show ?thesis by (simp add: parseTerm_loop.psimps)
    next
      case (Inr t)
      obtain r1 c1 g1 where t: "t = (r1, c1, g1)" by (cases t) auto
      have le1: "remaining c1 \<le> remaining cur" using 4(2) Inr t by simp
      show ?thesis
      proof (cases r1)
        case None
        with res 4(1) Inr t le1 show ?thesis by (simp add: parseTerm_loop.psimps)
      next
        case (Some f)
        have "parseTerm_loop (children @ [f]) c1 g1 = Inr (r, c, g)"
          using res 4(1) Inr t Some by (simp add: parseTerm_loop.psimps)
        moreover have "\<forall>r c g. parseTerm_loop (children @ [f]) c1 g1 = Inr (r, c, g)
            \<longrightarrow> remaining c \<le> remaining c1"
          using 4(3) [OF Inr _ Some] t by simp
        ultimately have "remaining c \<le> remaining c1" by blast
        then show ?thesis using le1 by linarith
      qed
    qed
  qed
next
  case (5 cur gc)
  show ?case
  proof (intro allI impI)
    fix r c g
    assume res: "parseFactor cur gc = Inr (r, c, g)"
    show "remaining c \<le> remaining cur \<and> (r \<noteq> None \<longrightarrow> remaining c < remaining cur)"
    proof (cases "fst (matchChar cur (CHR ''(''))")
      case True
      have "parseGroup (snd (matchChar cur (CHR ''(''))) gc = Inr (r, c, g)"
        using res 5(1) True by (simp add: parseFactor.psimps)
      then have "remaining c \<le> remaining (snd (matchChar cur (CHR ''('')))"
        using 5(2) [OF True] by blast
      then have "remaining c < remaining cur"
        using remaining_matchChar_less [OF True] by linarith
      then show ?thesis by simp
    next
      case False
      show ?thesis
      proof (cases "\<not> end_cur cur \<and> (current cur = CHR ''.'' \<or> \<not> special (current cur))")
        case False
        with res 5(1) \<open>\<not> fst (matchChar cur (CHR ''(''))\<close> show ?thesis
          by (auto simp: parseFactor.psimps)
      next
        case True
        then obtain base where "parseSuffix base (advance cur) = Inr (the r, c)" and "r \<noteq> None"
          using res 5(1) \<open>\<not> fst (matchChar cur (CHR ''(''))\<close>
          by (auto simp: parseFactor.psimps split: if_splits sum.splits)
        then have "remaining c \<le> remaining (advance cur)"
          using remaining_parseSuffix by blast
        then have "remaining c < remaining cur"
          using remaining_advance_less [of cur] True by linarith
        then show ?thesis by simp
      qed
    qed
  qed
next
  case (6 cur gc)
  show ?case
  proof (intro allI impI)
    fix r c g
    assume res: "parseGroup cur gc = Inr (r, c, g)"
    then obtain e c1 g1 where pe: "parseExpr cur gc = Inr (e, c1, g1)"
      using 6(1) by (auto simp: parseGroup.psimps split: sum.splits)
    have le1: "remaining c1 \<le> remaining cur" using 6(2) pe by blast
    show "remaining c \<le> remaining cur"
    proof (cases "fst (matchChar c1 (CHR '')''))")
      case False
      with res 6(1) pe le1 show ?thesis by (simp add: parseGroup.psimps)
    next
      case True
      then obtain base where "parseSuffix base (snd (matchChar c1 (CHR '')''))) = Inr (the r, c)"
        using res 6(1) pe by (auto simp: parseGroup.psimps split: if_splits sum.splits)
      then have "remaining c \<le> remaining (snd (matchChar c1 (CHR '')'')))"
        using remaining_parseSuffix by blast
      then show ?thesis
        using remaining_matchChar_le [of c1 "CHR '')''"] le1 by linarith
    qed
  qed
qed

termination parseExpr
proof (relation "inv_image (less_than <*lex*> less_than)
    (\<lambda>x. case x of
       Inl (Inl (cur, gc)) \<Rightarrow> (remaining cur, 4::nat)
     | Inl (Inr (Inl (left, cur, gc))) \<Rightarrow> (remaining cur, 3)
     | Inl (Inr (Inr (cur, gc))) \<Rightarrow> (remaining cur, 2)
     | Inr (Inl (children, cur, gc)) \<Rightarrow> (remaining cur, 1)
     | Inr (Inr (Inl (cur, gc))) \<Rightarrow> (remaining cur, 0)
     | Inr (Inr (Inr (cur, gc))) \<Rightarrow> (remaining cur, 5))", goal_cases)
  case 1
  show ?case by (intro wf_inv_image wf_lex_prod wf_less_than)
next
  case (2 cur gc)
  show ?case by simp
next
  case (3 cur gc b x y x2 xa ya)
  then show ?case using parse_progress_dom(3) [of cur gc] by auto
next
  case (4 left cur gc)
  then show ?case using remaining_matchChar_less [of cur "CHR ''+''"] by simp
next
  case (5 left cur gc b x y x2 xa ya)
  then show ?case
    using parse_progress_dom(3) [of "snd (matchChar cur (CHR ''+''))" gc]
      remaining_matchChar_less [of cur "CHR ''+''"] by auto
next
  case (6 cur gc)
  show ?case by simp
next
  case (7 children cur gc)
  show ?case by simp
next
  case (8 children cur gc b x y x2 xa ya)
  then show ?case using parse_progress_dom(5) [of cur gc] by auto
next
  case (9 cur gc)
  then show ?case using remaining_matchChar_less [of cur "CHR ''(''"] by simp
next
  case (10 cur gc)
  show ?case by simp
qed

declare parseExpr.simps [simp del] parseExpr_loop.simps [simp del] parseTerm.simps [simp del]
  parseTerm_loop.simps [simp del] parseFactor.simps [simp del] parseGroup.simps [simp del]

text \<open>
  The block of \<^verbatim>\<open>parsePattern\<close> that looks for the output directive after the
  expression; \<open>outputGroupIndex\<close> is the caller's variable, passed by reference.
\<close>

definition parseOutput :: "Cursor \<Rightarrow> int \<Rightarrow> error + Cursor \<times> int" where
  "parseOutput cur outputGroupIndex =
     (if \<not> end_cur cur \<and> current cur = CHR 0x5C then
        (let savedPos = pos cur; cur1 = advance cur in
         if \<not> end_cur cur1 \<and> (current cur1 = CHR ''O'' \<or> current cur1 = CHR ''o'') then
           (let cur2 = advance cur1 in
            if \<not> end_cur cur2 \<and> current cur2 = CHR ''{'' then
              (let (digits, cur3) = digits_loop [] (advance cur2) in
               if digits \<noteq> [] \<and> fst (matchChar cur3 (CHR ''}'')) then
                 (case stoi digits of
                    Inl e \<Rightarrow> Inl e
                  | Inr n \<Rightarrow> Inr (snd (matchChar cur3 (CHR ''}'')), n))
               else Inr (cur3\<lparr>pos := savedPos\<rparr>, outputGroupIndex))
            else Inr (cur2\<lparr>pos := savedPos\<rparr>, outputGroupIndex))
         else Inr (cur1\<lparr>pos := savedPos\<rparr>, outputGroupIndex))
      else Inr (cur, outputGroupIndex))"

text \<open>
  \<^verbatim>\<open>parsePattern\<close> returns the node of \<^verbatim>\<open>parseExpr\<close> whatever the directive block did.
  The arguments are the pattern, the caller's \<open>outputGroupIndex\<close> and the current
  \<^verbatim>\<open>groupCounter\<close> (1 when the process starts); the result carries the new values of
  both.
\<close>

definition parsePattern :: "string \<Rightarrow> int \<Rightarrow> int \<Rightarrow> error + node option \<times> int \<times> int" where
  "parsePattern pattern outputGroupIndex groupCounter =
     (case parseExpr \<lparr>text_cur = pattern, pos = 0\<rparr> groupCounter of
        Inl e \<Rightarrow> Inl e
      | Inr (ast, cur, gc) \<Rightarrow>
          (case parseOutput cur outputGroupIndex of
             Inl e \<Rightarrow> Inl e
           | Inr (cur', out) \<Rightarrow> Inr (ast, out, gc)))"

section \<open>The command-line program (main.cpp)\<close>

text \<open>
  The last lines of \<^verbatim>\<open>main\<close>: nothing is printed when the requested group is out of
  range or absent, else \<^verbatim>\<open>input.substr(cg.startIndex, cg.endIndex - cg.startIndex)\<close>
  (followed by a newline, which the model leaves out). \<^verbatim>\<open>substr\<close> throws when the start is
  beyond the end of the input and otherwise cuts the count down to what is left; a
  \<^verbatim>\<open>size_t\<close> difference that wrapped around is such a count. \<open>outputGroup\<close> is 0 or a value
  of \<^verbatim>\<open>std::stoi\<close> on digits, never negative.
\<close>

datatype exit_status = EXIT_FAILURE | EXIT_SUCCESS

definition printed :: "string \<Rightarrow> int \<Rightarrow> CaptureGroup option list \<Rightarrow> error + string option" where
  "printed inp outputGroup caps =
     (if outputGroup \<ge> int (length caps) then Inr None
      else (case caps ! nat outputGroup of
              None \<Rightarrow> Inr None
            | Some cg \<Rightarrow>
                if startIndex cg > length inp then Inl SubstrOutOfRange
                else if endIndex cg < startIndex cg then Inr (Some (drop (startIndex cg) inp))
                else Inr (Some (take (endIndex cg - startIndex cg) (drop (startIndex cg) inp)))))"

text \<open>
  \<^verbatim>\<open>main\<close> on a pattern and the text read from standard input: the exit status and the
  line printed, if any. The process has just started, so \<^verbatim>\<open>groupCounter\<close> is 1, and
  \<^verbatim>\<open>outputGroup\<close> is initialised to 0.
\<close>

definition main :: "string \<Rightarrow> string \<Rightarrow> nat \<Rightarrow> error + exit_status \<times> string option" where
  "main pattern inp fuel =
     (case parsePattern pattern 0 1 of
        Inl e \<Rightarrow> Inl e
      | Inr (None, outputGroup, gc) \<Rightarrow> Inr (EXIT_FAILURE, None)
      | Inr (Some ast, outputGroup, gc) \<Rightarrow>
          (case findMatch ast fuel inp [] of
             Inl e \<Rightarrow> Inl e
           | Inr (None, caps) \<Rightarrow> Inr (EXIT_FAILURE, None)
           | Inr (Some p, caps) \<Rightarrow>
               (case printed inp outputGroup caps of
                  Inl e \<Rightarrow> Inl e
                | Inr line \<Rightarrow> Inr (EXIT_SUCCESS, line))))"

section \<open>Notions used in the statements\<close>

text \<open>
  The output directive as the grammar of the specification writes it, read off the front
  of a string: a backslash, \<open>O\<close> or \<open>o\<close>, an opening brace, a non-empty run of digits and a
  closing brace. The result is the run of digits.
\<close>

definition output_directive :: "string \<Rightarrow> string option" where
  "output_directive s =
     (case s of
        b # c # l # rest \<Rightarrow>
          if b = CHR 0x5C \<and> (c = CHR ''O'' \<or> c = CHR ''o'') \<and> l = CHR ''{''
             \<and> takeWhile isdigit rest \<noteq> [] \<and> take 1 (dropWhile isdigit rest) = ''}''
          then Some (takeWhile isdigit rest)
          else None
      | _ \<Rightarrow> None)"

text \<open>
  The group indices of a tree in the order in which the groups close in the pattern: the
  groups inside a group come before the group itself, the groups of a sequence and of an
  alternation from left to right. \<open>numbered n g g'\<close> says that these indices increase
  strictly along that order and lie from \<open>g\<close> up to, but not including, \<open>g'\<close>.
\<close>

primrec group_order :: "node \<Rightarrow> int list" where
  "group_order (CharacterNode ch) = []"
| "group_order DotNode = []"
| "group_order (SequenceNode children) = concat (map group_order children)"
| "group_order (OrNode lhs rhs) = group_order lhs @ group_order rhs"
| "group_order (GroupNode expr groupIndex) =
     (case map_option group_order expr of None \<Rightarrow> [] | Some inner \<Rightarrow> inner) @ [groupIndex]"
| "group_order (StarNode expr) = group_order expr"
| "group_order (CountNode expr count) = group_order expr"
| "group_order (IgnoreCaseNode expr) = group_order expr"
| "group_order (OutputGroupNode idx) = []"

definition numbered :: "node \<Rightarrow> int \<Rightarrow> int \<Rightarrow> bool" where
  "numbered n g g' \<longleftrightarrow> sorted_wrt (<) (group_order n) \<and> set (group_order n) \<subseteq> {g..<g'}"

text \<open>Every group of the tree has an index above all indices inside it.\<close>

fun nested_lower :: "node \<Rightarrow> bool" where
  "nested_lower (SequenceNode children) = (\<forall>c \<in> set children. nested_lower c)"
| "nested_lower (OrNode lhs rhs) = (nested_lower lhs \<and> nested_lower rhs)"
| "nested_lower (GroupNode None groupIndex) = True"
| "nested_lower (GroupNode (Some expr) groupIndex) =
     ((\<forall>j \<in> set (group_order expr). j < groupIndex) \<and> nested_lower expr)"
| "nested_lower (StarNode expr) = nested_lower expr"
| "nested_lower (CountNode expr count) = nested_lower expr"
| "nested_lower (IgnoreCaseNode expr) = nested_lower expr"
| "nested_lower (CharacterNode ch) = True"
| "nested_lower DotNode = True"
| "nested_lower (OutputGroupNode idx) = True"

text \<open>
  A string at which no factor can start: it is empty or begins with one of
  \<open>+ * ) { }\<close> or a backslash.
\<close>

definition no_factor :: "string \<Rightarrow> bool" where
  "no_factor r = (r = [] \<or> hd r \<in> set (''+*){}'' @ [CHR 0x5C]))"

text \<open>
  Where the top-level terms of a pattern start. \<open>term_start k cur gc\<close> is the cursor and
  the counter at the start of the term that comes after \<open>k\<close> terms and their \<open>+\<close>, when
  parsing starts at \<open>cur\<close> with counter \<open>gc\<close>: each of the \<open>k\<close> terms has to parse and to
  be followed by a \<open>+\<close>.
\<close>

fun term_start :: "nat \<Rightarrow> Cursor \<Rightarrow> int \<Rightarrow> (Cursor \<times> int) option" where
  "term_start 0 cur gc = Some (cur, gc)"
| "term_start (Suc k) cur gc =
     (case parseTerm cur gc of
        Inr (Some t, cur1, gc1) \<Rightarrow>
          if fst (matchChar cur1 (CHR ''+''))
          then term_start k (snd (matchChar cur1 (CHR ''+''))) gc1
          else None
      | _ \<Rightarrow> None)"

text \<open>
  A tree with every group index raised by \<open>d\<close>. A capture vector with the slots from 1 on
  moved up by \<open>m\<close> places and \<open>m\<close> absent slots put in between; a vector of at most one
  slot stays as it is. The same for the vector in a search result.
\<close>

primrec shift :: "int \<Rightarrow> node \<Rightarrow> node" where
  "shift d (CharacterNode ch) = CharacterNode ch"
| "shift d DotNode = DotNode"
| "shift d (SequenceNode children) = SequenceNode (map (shift d) children)"
| "shift d (OrNode lhs rhs) = OrNode (shift d lhs) (shift d rhs)"
| "shift d (GroupNode expr groupIndex) = GroupNode (map_option (shift d) expr) (groupIndex + d)"
| "shift d (StarNode expr) = StarNode (shift d expr)"
| "shift d (CountNode expr count) = CountNode (shift d expr) count"
| "shift d (IgnoreCaseNode expr) = IgnoreCaseNode (shift d expr)"
| "shift d (OutputGroupNode idx) = OutputGroupNode idx"

fun raise_table :: "nat \<Rightarrow> 'a option list \<Rightarrow> 'a option list" where
  "raise_table m [] = []"
| "raise_table m [x] = [x]"
| "raise_table m (x # y # ys) = x # replicate m None @ y # ys"

definition raise_result ::
  "nat \<Rightarrow> error + nat option \<times> CaptureGroup option list \<Rightarrow> error + nat option \<times> CaptureGroup option list"
where
  "raise_result m x =
     (case x of
        Inl e \<Rightarrow> Inl e
      | Inr (s, caps) \<Rightarrow> Inr (s, raise_table m caps))"

text \<open>
  The write \<^verbatim>\<open>captures[n] = v\<close> on a vector that is first resized to \<open>n + 1\<close> slots when it
  has no slot \<open>n\<close>, as \<^verbatim>\<open>GroupNode::match\<close> does it.
\<close>

definition write_slot :: "nat \<Rightarrow> 'a option \<Rightarrow> 'a option list \<Rightarrow> 'a option list" where
  "write_slot n v xs = (if n \<ge> length xs then resize (n + 1) xs else xs)[n := v]"

text \<open>
  What a call that returns has done to the context: the input and the case flag are as
  they were, the capture vector has not shrunk, and the position has not moved back on
  success and is the position at entry on failure.
\<close>

definition contract :: "(MatchContext \<Rightarrow> outcome) \<Rightarrow> bool" where
  "contract m = (\<forall>ctx ok ctx'. m ctx = Inr (ok, ctx') \<longrightarrow>
     input ctx' = input ctx \<and> ignoreCase ctx' = ignoreCase ctx
     \<and> length (captures ctx) \<le> length (captures ctx')
     \<and> (if ok then position ctx \<le> position ctx' else position ctx' = position ctx))"

text \<open>
  Two contexts that differ only in that the capture vector of the second is the one of
  the first raised by \<open>m\<close>, and two runs that end the same way in such contexts.
\<close>

definition sim :: "nat \<Rightarrow> MatchContext \<Rightarrow> MatchContext \<Rightarrow> bool" where
  "sim m a b \<longleftrightarrow> input a = input b \<and> position a = position b \<and> ignoreCase a = ignoreCase b
     \<and> captures a \<noteq> [] \<and> captures b = raise_table m (captures a)"

fun sim_outcome :: "nat \<Rightarrow> outcome \<Rightarrow> outcome \<Rightarrow> bool" where
  "sim_outcome m (Inl e) (Inl e') = (e = e')"
| "sim_outcome m (Inr (ok, a)) (Inr (ok', b)) = (ok = ok' \<and> sim m a b)"
| "sim_outcome m (Inl e) (Inr y) = False"
| "sim_outcome m (Inr x) (Inl e') = False"

definition sim_fun :: "nat \<Rightarrow> (MatchContext \<Rightarrow> outcome) \<Rightarrow> (MatchContext \<Rightarrow> outcome) \<Rightarrow> bool" where
  "sim_fun m f f' \<longleftrightarrow> (\<forall>a b. sim m a b \<longrightarrow> sim_outcome m (f a) (f' b))"

section \<open>The contract of \<open>match\<close>\<close>

lemma contractD:
  "contract m \<Longrightarrow> m ctx = Inr (ok, ctx') \<Longrightarrow>
     input ctx' = input ctx \<and> ignoreCase ctx' = ignoreCase ctx
     \<and> length (captures ctx) \<le> length (captures ctx')
     \<and> (if ok then position ctx \<le> position ctx' else position ctx' = position ctx)"
  unfolding contract_def by blast

lemma seq_loop_contract:
  assumes "\<forall>m \<in> set ms. contract m"
    and "seq_loop ms savedPos ctx = Inr (ok, ctx')"
    and "savedPos \<le> position ctx"
  shows "input ctx' = input ctx \<and> ignoreCase ctx' = ignoreCase ctx
     \<and> length (captures ctx) \<le> length (captures ctx')
     \<and> (if ok then position ctx \<le> position ctx' else position ctx' = savedPos)"
  using assms
proof (induction ms arbitrary: ctx)
  case Nil
  then show ?case by auto
next
  case (Cons m ms)
  obtain ok1 c1 where m: "m ctx = Inr (ok1, c1)"
    using Cons.prems(2) by (auto split: sum.splits)
  have c: "input c1 = input ctx \<and> ignoreCase c1 = ignoreCase ctx
     \<and> length (captures ctx) \<le> length (captures c1)
     \<and> (if ok1 then position ctx \<le> position c1 else position c1 = position ctx)"
    using contractD [where m=m, OF _ m] Cons.prems(1) by simp
  show ?case
  proof (cases ok1)
    case False
    then show ?thesis using Cons.prems(2) m c by auto
  next
    case True
    then have r: "seq_loop ms savedPos c1 = Inr (ok, ctx')" using Cons.prems(2) m by simp
    have "savedPos \<le> position c1" using c True Cons.prems(3) by simp
    from Cons.IH [OF _ r this] Cons.prems(1) c True show ?thesis by (auto split: if_splits)
  qed
qed

lemma count_loop_contract:
  assumes "contract m"
    and "count_loop k m savedPos ctx = Inr (ok, ctx')"
    and "savedPos \<le> position ctx"
  shows "input ctx' = input ctx \<and> ignoreCase ctx' = ignoreCase ctx
     \<and> length (captures ctx) \<le> length (captures ctx')
     \<and> (if ok then position ctx \<le> position ctx' else position ctx' = savedPos)"
  using assms
proof (induction k arbitrary: ctx)
  case 0
  then show ?case by auto
next
  case (Suc k)
  obtain ok1 c1 where m: "m ctx = Inr (ok1, c1)"
    using Suc.prems(2) by (auto split: sum.splits)
  note c = contractD [where m=m, OF Suc.prems(1) m]
  show ?case
  proof (cases ok1)
    case False
    then show ?thesis using Suc.prems(2) m c by auto
  next
    case True
    then have r: "count_loop k m savedPos c1 = Inr (ok, ctx')" using Suc.prems(2) m by simp
    have "savedPos \<le> position c1" using c True Suc.prems(3) by simp
    from Suc.IH [OF Suc.prems(1) r this] c True show ?thesis by (auto split: if_splits)
  qed
qed

lemma star_loop_contract:
  assumes "contract m"
    and "star_loop k m cnt ctx = Inr (ok, ctx')"
    and "0 \<le> cnt"
  shows "input ctx' = input ctx \<and> ignoreCase ctx' = ignoreCase ctx
     \<and> length (captures ctx) \<le> length (captures ctx')
     \<and> position ctx \<le> position ctx' \<and> (\<not> ok \<longrightarrow> cnt = 0 \<and> position ctx' = position ctx)"
  using assms
proof (induction k arbitrary: ctx cnt)
  case 0
  then show ?case by auto
next
  case (Suc k)
  obtain ok1 c1 where m: "m ctx = Inr (ok1, c1)"
    using Suc.prems(2) by (auto split: sum.splits)
  note c = contractD [where m=m, OF Suc.prems(1) m]
  show ?case
  proof (cases ok1)
    case False
    then show ?thesis using Suc.prems(2,3) m c by auto
  next
    case True
    then have r: "star_loop k m (cnt + 1) c1 = Inr (ok, ctx')"
      using Suc.prems(2) m by (simp split: if_splits)
    have "0 \<le> cnt + 1" using Suc.prems(3) by simp
    from Suc.IH [OF Suc.prems(1) r this] c True Suc.prems(3) show ?thesis by auto
  qed
qed

lemma length_resize: "length (resize n xs) = n"
  by (simp add: resize_def)

lemma store_capture_fields:
  "input (store_capture g s e ctx) = input ctx"
  "position (store_capture g s e ctx) = position ctx"
  "ignoreCase (store_capture g s e ctx) = ignoreCase ctx"
  "length (captures ctx) \<le> length (captures (store_capture g s e ctx))"
  by (auto simp: store_capture_def Let_def length_resize)

lemma match_contract: "contract (match n fuel)"
proof (induction n)
  case (CharacterNode ch)
  show ?case by (auto simp: contract_def Let_def split: if_splits)
next
  case DotNode
  show ?case by (auto simp: contract_def split: if_splits)
next
  case (SequenceNode children)
  show ?case
    unfolding contract_def
  proof (intro allI impI)
    fix ctx ok ctx'
    assume "match (SequenceNode children) fuel ctx = Inr (ok, ctx')"
    then have "seq_loop (map (\<lambda>c. match c fuel) children) (position ctx) ctx = Inr (ok, ctx')"
      by simp
    moreover have "\<forall>m \<in> set (map (\<lambda>c. match c fuel) children). contract m"
      using SequenceNode by auto
    ultimately show "input ctx' = input ctx \<and> ignoreCase ctx' = ignoreCase ctx
       \<and> length (captures ctx) \<le> length (captures ctx')
       \<and> (if ok then position ctx \<le> position ctx' else position ctx' = position ctx)"
      using seq_loop_contract [of "map (\<lambda>c. match c fuel) children" "position ctx" ctx ok ctx']
      by simp
  qed
next
  case (OrNode lhs rhs)
  show ?case
    unfolding contract_def
  proof (intro allI impI)
    fix ctx ok ctx'
    assume a: "match (OrNode lhs rhs) fuel ctx = Inr (ok, ctx')"
    then obtain ok1 c1 where l: "match lhs fuel ctx = Inr (ok1, c1)"
      by (auto split: sum.splits)
    note cl = contractD [where m="match lhs fuel", OF OrNode(1) l]
    show "input ctx' = input ctx \<and> ignoreCase ctx' = ignoreCase ctx
       \<and> length (captures ctx) \<le> length (captures ctx')
       \<and> (if ok then position ctx \<le> position ctx' else position ctx' = position ctx)"
    proof (cases ok1)
      case True
      then show ?thesis using a l cl by auto
    next
      case False
      then have r: "match rhs fuel (c1\<lparr>position := position ctx\<rparr>) = Inr (ok, ctx')"
        using a l by simp
      from contractD [where m="match rhs fuel", OF OrNode(2) r] cl False show ?thesis by (auto split: if_splits)
    qed
  qed
next
  case (GroupNode expr groupIndex)
  show ?case
    unfolding contract_def
  proof (intro allI impI)
    fix ctx ok ctx'
    assume a: "match (GroupNode expr groupIndex) fuel ctx = Inr (ok, ctx')"
    then obtain e where e: "expr = Some e" by (cases expr) auto
    then obtain ok1 c1 where l: "match e fuel ctx = Inr (ok1, c1)"
      using a by (auto split: sum.splits)
    have "contract (match e fuel)" using GroupNode e by simp
    note cl = contractD [where m="match e fuel", OF this l]
    show "input ctx' = input ctx \<and> ignoreCase ctx' = ignoreCase ctx
       \<and> length (captures ctx) \<le> length (captures ctx')
       \<and> (if ok then position ctx \<le> position ctx' else position ctx' = position ctx)"
      using a e l cl store_capture_fields [where g=groupIndex and s="position ctx" and e="position c1" and ctx=c1]
      by (cases ok1) (auto intro: order_trans)
  qed
next
  case (StarNode n)
  show ?case
    unfolding contract_def
  proof (intro allI impI)
    fix ctx ok ctx'
    assume "match (StarNode n) fuel ctx = Inr (ok, ctx')"
    then have "star_loop fuel (match n fuel) 0 ctx = Inr (ok, ctx')" by simp
    from star_loop_contract [where m="match n fuel", OF StarNode this]
    show "input ctx' = input ctx \<and> ignoreCase ctx' = ignoreCase ctx
       \<and> length (captures ctx) \<le> length (captures ctx')
       \<and> (if ok then position ctx \<le> position ctx' else position ctx' = position ctx)"
      by auto
  qed
next
  case (CountNode n k)
  show ?case
    unfolding contract_def
  proof (intro allI impI)
    fix ctx ok ctx'
    assume "match (CountNode n k) fuel ctx = Inr (ok, ctx')"
    then have "count_loop (nat k) (match n fuel) (position ctx) ctx = Inr (ok, ctx')" by simp
    from count_loop_contract [where m="match n fuel", OF CountNode this]
    show "input ctx' = input ctx \<and> ignoreCase ctx' = ignoreCase ctx
       \<and> length (captures ctx) \<le> length (captures ctx')
       \<and> (if ok then position ctx \<le> position ctx' else position ctx' = position ctx)"
      by auto
  qed
next
  case (IgnoreCaseNode n)
  show ?case
    unfolding contract_def
  proof (intro allI impI)
    fix ctx ok ctx'
    assume a: "match (IgnoreCaseNode n) fuel ctx = Inr (ok, ctx')"
    then obtain c1 where l: "match n fuel (ctx\<lparr>ignoreCase := True\<rparr>) = Inr (ok, c1)"
      and c': "ctx' = c1\<lparr>ignoreCase := ignoreCase ctx\<rparr>"
      by (auto split: sum.splits)
    from contractD [where m="match n fuel", OF IgnoreCaseNode l] c'
    show "input ctx' = input ctx \<and> ignoreCase ctx' = ignoreCase ctx
       \<and> length (captures ctx) \<le> length (captures ctx')
       \<and> (if ok then position ctx \<le> position ctx' else position ctx' = position ctx)"
      by (auto split: if_splits)
  qed
next
  case (OutputGroupNode idx)
  show ?case by (simp add: contract_def)
qed


section \<open>Repetition\<close>

lemma star_loop_greedy:
  assumes "\<forall>i<k. m (cs i) = Inr (True, cs (Suc i))"
    and "m (cs k) = Inr (False, c')"
    and "k < fuel"
    and "cnt + int k \<le> 2147483647"
  shows "star_loop fuel m cnt (cs 0) = Inr (cnt + int k \<ge> 1, c'\<lparr>position := position (cs k)\<rparr>)"
  using assms
proof (induction k arbitrary: fuel cnt cs)
  case 0
  then obtain f where "fuel = Suc f" by (cases fuel) auto
  then show ?case using 0 by simp
next
  case (Suc k)
  then obtain f where f: "fuel = Suc f" by (cases fuel) auto
  have first: "m (cs 0) = Inr (True, cs 1)" using Suc.prems(1) by simp
  have "star_loop f m (cnt + 1) ((\<lambda>i. cs (Suc i)) 0)
      = Inr (cnt + 1 + int k \<ge> 1, c'\<lparr>position := position ((\<lambda>i. cs (Suc i)) k)\<rparr>)"
    using Suc.prems f by (intro Suc.IH) auto
  then show ?case using first f Suc.prems(4) by (simp add: add.commute add.left_commute)
qed

text \<open>
  Claim C8. The one-or-more node repeats its child until the child fails: when the child
  succeeds \<open>k\<close> times in a row from the contexts \<open>cs 0\<close>, ..., \<open>cs (k - 1)\<close> and fails at
  \<open>cs k\<close>, the node returns after exactly these calls, succeeds iff \<open>k \<ge> 1\<close>, and leaves
  the position where the last successful repetition left it. It is a function of the
  context, so no shorter run is ever tried: \<open>a*\<close> on \<open>aaab\<close> matches \<open>aaa\<close> at offset 0, and
  \<open>a*a\<close> finds no match in \<open>aaa\<close>.
\<close>

theorem star_greedy:
  "((\<forall>i<k. match e fuel (cs i) = Inr (True, cs (Suc i)))
      \<and> match e fuel (cs k) = Inr (False, c') \<and> k < fuel \<and> k \<le> 2147483647
    \<longrightarrow> match (StarNode e) fuel (cs 0) = Inr (k \<ge> 1, c'\<lparr>position := position (cs k)\<rparr>))
   \<and> parsePattern ''a*'' 0 1 = Inr (Some (SequenceNode [StarNode (CharacterNode CHR ''a'')]), 0, 1)
   \<and> findMatch (SequenceNode [StarNode (CharacterNode CHR ''a'')]) (Suc (Suc (Suc (Suc n)))) ''aaab'' []
       = Inr (Some 0, [Some \<lparr>startIndex = 0, endIndex = 3, valid = True\<rparr>])
   \<and> parsePattern ''a*a'' 0 1
       = Inr (Some (SequenceNode [StarNode (CharacterNode CHR ''a''), CharacterNode CHR ''a'']), 0, 1)
   \<and> findMatch (SequenceNode [StarNode (CharacterNode CHR ''a''), CharacterNode CHR ''a''])
        (Suc (Suc (Suc (Suc n)))) ''aaa'' [] = Inr (None, [])"
proof (intro conjI impI)
  assume a: "(\<forall>i<k. match e fuel (cs i) = Inr (True, cs (Suc i)))
      \<and> match e fuel (cs k) = Inr (False, c') \<and> k < fuel \<and> k \<le> 2147483647"
  have "star_loop fuel (match e fuel) 0 (cs 0)
      = Inr (0 + int k \<ge> 1, c'\<lparr>position := position (cs k)\<rparr>)"
    using a by (intro star_loop_greedy) auto
  then show "match (StarNode e) fuel (cs 0) = Inr (k \<ge> 1, c'\<lparr>position := position (cs k)\<rparr>)"
    by simp
next
  show "parsePattern ''a*'' 0 1 = Inr (Some (SequenceNode [StarNode (CharacterNode CHR ''a'')]), 0, 1)"
    by code_simp
next
  show "findMatch (SequenceNode [StarNode (CharacterNode CHR ''a'')]) (Suc (Suc (Suc (Suc n)))) ''aaab'' []
       = Inr (Some 0, [Some \<lparr>startIndex = 0, endIndex = 3, valid = True\<rparr>])"
    by (simp add: findMatch_def findMatch_from.simps attempt_def resize_def atEnd_def currentChar_def)
next
  show "parsePattern ''a*a'' 0 1
       = Inr (Some (SequenceNode [StarNode (CharacterNode CHR ''a''), CharacterNode CHR ''a'']), 0, 1)"
    by code_simp
next
  show "findMatch (SequenceNode [StarNode (CharacterNode CHR ''a''), CharacterNode CHR ''a''])
        (Suc (Suc (Suc (Suc n)))) ''aaa'' [] = Inr (None, [])"
    by (simp add: findMatch_def findMatch_from.simps attempt_def resize_def atEnd_def currentChar_def)
qed


theorem star_greedy_witness:
  "match (CharacterNode CHR ''a'') 4
        \<lparr>input = ''aaab'', position = 0, captures = [], ignoreCase = False\<rparr>
      = Inr (True, \<lparr>input = ''aaab'', position = 1, captures = [], ignoreCase = False\<rparr>)
   \<and> match (CharacterNode CHR ''a'') 4
        \<lparr>input = ''aaab'', position = 1, captures = [], ignoreCase = False\<rparr>
      = Inr (True, \<lparr>input = ''aaab'', position = 2, captures = [], ignoreCase = False\<rparr>)
   \<and> match (CharacterNode CHR ''a'') 4
        \<lparr>input = ''aaab'', position = 2, captures = [], ignoreCase = False\<rparr>
      = Inr (True, \<lparr>input = ''aaab'', position = 3, captures = [], ignoreCase = False\<rparr>)
   \<and> match (CharacterNode CHR ''a'') 4
        \<lparr>input = ''aaab'', position = 3, captures = [], ignoreCase = False\<rparr>
      = Inr (False, \<lparr>input = ''aaab'', position = 3, captures = [], ignoreCase = False\<rparr>)
   \<and> match (StarNode (CharacterNode CHR ''a'')) 4
        \<lparr>input = ''aaab'', position = 0, captures = [], ignoreCase = False\<rparr>
      = Inr (True, \<lparr>input = ''aaab'', position = 3, captures = [], ignoreCase = False\<rparr>)"
proof -
  have h1: "\<forall>i<3. match (CharacterNode CHR ''a'') 4
        \<lparr>input = ''aaab'', position = i, captures = [], ignoreCase = False\<rparr>
      = Inr (True, \<lparr>input = ''aaab'', position = Suc i, captures = [], ignoreCase = False\<rparr>)"
    by (auto simp: atEnd_def currentChar_def less_Suc_eq numeral_3_eq_3)
  have h2: "match (CharacterNode CHR ''a'') 4
        \<lparr>input = ''aaab'', position = 3, captures = [], ignoreCase = False\<rparr>
      = Inr (False, \<lparr>input = ''aaab'', position = 3, captures = [], ignoreCase = False\<rparr>)"
    by (simp add: atEnd_def currentChar_def)
  have h3: "match (StarNode (CharacterNode CHR ''a'')) 4
        \<lparr>input = ''aaab'', position = 0, captures = [], ignoreCase = False\<rparr>
      = Inr (True, \<lparr>input = ''aaab'', position = 3, captures = [], ignoreCase = False\<rparr>)"
    using h1 h2
      star_greedy [where k = 3 and e = "CharacterNode CHR ''a''" and fuel = 4
        and cs = "\<lambda>i. \<lparr>input = ''aaab'', position = i, captures = [], ignoreCase = False\<rparr>"
        and c' = "\<lparr>input = ''aaab'', position = 3, captures = [], ignoreCase = False\<rparr>"]
    by simp
  have h4: "match (CharacterNode CHR ''a'') 4
        \<lparr>input = ''aaab'', position = 0, captures = [], ignoreCase = False\<rparr>
      = Inr (True, \<lparr>input = ''aaab'', position = 1, captures = [], ignoreCase = False\<rparr>)"
    "match (CharacterNode CHR ''a'') 4
        \<lparr>input = ''aaab'', position = 1, captures = [], ignoreCase = False\<rparr>
      = Inr (True, \<lparr>input = ''aaab'', position = 2, captures = [], ignoreCase = False\<rparr>)"
    "match (CharacterNode CHR ''a'') 4
        \<lparr>input = ''aaab'', position = 2, captures = [], ignoreCase = False\<rparr>
      = Inr (True, \<lparr>input = ''aaab'', position = 3, captures = [], ignoreCase = False\<rparr>)"
    by (simp_all add: atEnd_def currentChar_def)
  show ?thesis using h2 h3 h4 by blast
qed

section \<open>Alternation\<close>

text \<open>
  Claim C7. Alternation tries its left operand at the saved position first. When the left
  operand succeeds, the node returns that success and the right operand plays no part in
  the result; when it fails, the position is put back to the checkpoint and the result is
  the right operand's. The choice is never revisited: \<open>a+b\<close> on \<open>b\<close> matches through the
  right branch after the left one failed, and \<open>(a+ab)c\<close> finds no match in \<open>abc\<close> although
  \<open>(ab)c\<close> does, because the left branch \<open>a\<close> succeeded locally.
\<close>

theorem alternation_left_biased:
  "(match lhs fuel ctx = Inr (True, ctx') \<longrightarrow> match (OrNode lhs rhs) fuel ctx = Inr (True, ctx'))
   \<and> (match lhs fuel ctx = Inr (False, ctx') \<longrightarrow>
        position (ctx'\<lparr>position := position ctx\<rparr>) = position ctx
        \<and> match (OrNode lhs rhs) fuel ctx = match rhs fuel (ctx'\<lparr>position := position ctx\<rparr>))
   \<and> parsePattern ''a+b'' 0 1
        = Inr (Some (OrNode (SequenceNode [CharacterNode CHR ''a''])
                            (SequenceNode [CharacterNode CHR ''b''])), 0, 1)
   \<and> match (SequenceNode [CharacterNode CHR ''a'']) n
        \<lparr>input = ''b'', position = 0, captures = [None], ignoreCase = False\<rparr>
        = Inr (False, \<lparr>input = ''b'', position = 0, captures = [None], ignoreCase = False\<rparr>)
   \<and> match (SequenceNode [CharacterNode CHR ''b'']) n
        \<lparr>input = ''b'', position = 0, captures = [None], ignoreCase = False\<rparr>
        = Inr (True, \<lparr>input = ''b'', position = 1, captures = [None], ignoreCase = False\<rparr>)
   \<and> findMatch (OrNode (SequenceNode [CharacterNode CHR ''a''])
                         (SequenceNode [CharacterNode CHR ''b''])) n ''b'' []
        = Inr (Some 0, [Some \<lparr>startIndex = 0, endIndex = 1, valid = True\<rparr>])
   \<and> parsePattern ''(a+ab)c'' 0 1
        = Inr (Some (SequenceNode
             [GroupNode (Some (OrNode (SequenceNode [CharacterNode CHR ''a''])
                                      (SequenceNode [CharacterNode CHR ''a'', CharacterNode CHR ''b'']))) 1,
              CharacterNode CHR ''c'']), 0, 2)
   \<and> findMatch (SequenceNode
             [GroupNode (Some (OrNode (SequenceNode [CharacterNode CHR ''a''])
                                      (SequenceNode [CharacterNode CHR ''a'', CharacterNode CHR ''b'']))) 1,
              CharacterNode CHR ''c'']) n ''abc'' [] = Inr (None, [])
   \<and> findMatch (SequenceNode
             [GroupNode (Some (SequenceNode [CharacterNode CHR ''a'', CharacterNode CHR ''b''])) 1,
              CharacterNode CHR ''c'']) n ''abc'' []
        = Inr (Some 0, [Some \<lparr>startIndex = 0, endIndex = 3, valid = True\<rparr>,
                        Some \<lparr>startIndex = 0, endIndex = 2, valid = True\<rparr>])"
proof (intro conjI impI)
  show "parsePattern ''a+b'' 0 1
        = Inr (Some (OrNode (SequenceNode [CharacterNode CHR ''a''])
                            (SequenceNode [CharacterNode CHR ''b''])), 0, 1)"
    by code_simp
  show "parsePattern ''(a+ab)c'' 0 1
        = Inr (Some (SequenceNode
             [GroupNode (Some (OrNode (SequenceNode [CharacterNode CHR ''a''])
                                      (SequenceNode [CharacterNode CHR ''a'', CharacterNode CHR ''b'']))) 1,
              CharacterNode CHR ''c'']), 0, 2)"
    by code_simp
qed (simp_all add: findMatch_def findMatch_from.simps attempt_def resize_def atEnd_def
      currentChar_def store_capture_def)

theorem alternation_left_biased_witness:
  "match (CharacterNode CHR ''a'') 0
       \<lparr>input = ''ab'', position = 0, captures = [], ignoreCase = False\<rparr>
     = Inr (True, \<lparr>input = ''ab'', position = 1, captures = [], ignoreCase = False\<rparr>)
   \<and> match (OrNode (CharacterNode CHR ''a'') (SequenceNode [CharacterNode CHR ''a'', CharacterNode CHR ''b''])) 0
       \<lparr>input = ''ab'', position = 0, captures = [], ignoreCase = False\<rparr>
     = Inr (True, \<lparr>input = ''ab'', position = 1, captures = [], ignoreCase = False\<rparr>)
   \<and> match (CharacterNode CHR ''a'') 0
       \<lparr>input = ''b'', position = 0, captures = [], ignoreCase = False\<rparr>
     = Inr (False, \<lparr>input = ''b'', position = 0, captures = [], ignoreCase = False\<rparr>)
   \<and> match (OrNode (CharacterNode CHR ''a'') (CharacterNode CHR ''b'')) 0
       \<lparr>input = ''b'', position = 0, captures = [], ignoreCase = False\<rparr>
     = Inr (True, \<lparr>input = ''b'', position = 1, captures = [], ignoreCase = False\<rparr>)"
proof -
  let ?c = "\<lparr>input = ''ab'', position = 0, captures = [], ignoreCase = False\<rparr>"
  let ?d = "\<lparr>input = ''b'', position = 0, captures = [], ignoreCase = False\<rparr>"
  have l1: "match (CharacterNode CHR ''a'') 0 ?c = Inr (True, ?c\<lparr>position := 1\<rparr>)"
    by (simp add: atEnd_def currentChar_def)
  have l2: "match (CharacterNode CHR ''a'') 0 ?d = Inr (False, ?d)"
    by (simp add: atEnd_def currentChar_def)
  have r2: "match (CharacterNode CHR ''b'') 0 ?d = Inr (True, ?d\<lparr>position := 1\<rparr>)"
    by (simp add: atEnd_def currentChar_def)
  note t1 = alternation_left_biased [where lhs = "CharacterNode CHR ''a''" and fuel = 0 and ctx = ?c
      and ctx' = "?c\<lparr>position := 1\<rparr>"
      and rhs = "SequenceNode [CharacterNode CHR ''a'', CharacterNode CHR ''b'']", THEN conjunct1, rule_format, OF l1]
  note t2 = alternation_left_biased [where lhs = "CharacterNode CHR ''a''" and fuel = 0 and ctx = ?d
      and ctx' = ?d and rhs = "CharacterNode CHR ''b''", THEN conjunct2, THEN conjunct1, rule_format, OF l2]
  show ?thesis using l1 l2 r2 t1 t2 by simp
qed

section \<open>Captures are not rolled back\<close>

lemma seq_loop_fail_saved:
  "seq_loop ms s ctx = Inr (False, c) \<Longrightarrow> seq_loop ms s' ctx = Inr (False, c\<lparr>position := s'\<rparr>)"
proof (induction ms arbitrary: ctx)
  case Nil
  then show ?case by simp
next
  case (Cons m ms)
  then show ?case by (auto split: sum.splits if_splits)
qed

text \<open>
  Claim C6. When the first child of a sequence succeeds and a later child fails, the
  sequence fails with the position of its checkpoint and with the capture vector exactly
  as the failing run left it: what a group wrote before the failure stays. In \<open>(a)b+ac\<close>
  on \<open>ac\<close> the left alternative writes slot 1 and then fails at \<open>b\<close>; the right alternative
  matches without a group, and the final table still holds slot 1, which \<^verbatim>\<open>\O{1}\<close> prints.
\<close>

theorem sequence_keeps_captures:
  "(match c fuel ctx = Inr (True, ctx') \<and> match (SequenceNode cs) fuel ctx' = Inr (False, ctx'')
      \<longrightarrow> match (SequenceNode (c # cs)) fuel ctx = Inr (False, ctx''\<lparr>position := position ctx\<rparr>)
          \<and> captures (ctx''\<lparr>position := position ctx\<rparr>) = captures ctx'')
   \<and> parsePattern (''(a)b+ac'' @ [CHR 0x5C] @ ''O{1}'') 0 1
        = Inr (Some (OrNode
             (SequenceNode [GroupNode (Some (SequenceNode [CharacterNode CHR ''a''])) 1, CharacterNode CHR ''b''])
             (SequenceNode [CharacterNode CHR ''a'', CharacterNode CHR ''c''])), 1, 2)
   \<and> match (SequenceNode [GroupNode (Some (SequenceNode [CharacterNode CHR ''a''])) 1, CharacterNode CHR ''b'']) n
        \<lparr>input = ''ac'', position = 0, captures = [None], ignoreCase = False\<rparr>
        = Inr (False, \<lparr>input = ''ac'', position = 0,
             captures = [None, Some \<lparr>startIndex = 0, endIndex = 1, valid = True\<rparr>], ignoreCase = False\<rparr>)
   \<and> findMatch (OrNode
             (SequenceNode [GroupNode (Some (SequenceNode [CharacterNode CHR ''a''])) 1, CharacterNode CHR ''b''])
             (SequenceNode [CharacterNode CHR ''a'', CharacterNode CHR ''c''])) n ''ac'' []
        = Inr (Some 0, [Some \<lparr>startIndex = 0, endIndex = 2, valid = True\<rparr>,
                        Some \<lparr>startIndex = 0, endIndex = 1, valid = True\<rparr>])
   \<and> main (''(a)b+ac'' @ [CHR 0x5C] @ ''O{1}'') ''ac'' n = Inr (EXIT_SUCCESS, Some ''a'')"
proof -
  have p: "parsePattern (''(a)b+ac'' @ [CHR 0x5C] @ ''O{1}'') 0 1
        = Inr (Some (OrNode
             (SequenceNode [GroupNode (Some (SequenceNode [CharacterNode CHR ''a''])) 1, CharacterNode CHR ''b''])
             (SequenceNode [CharacterNode CHR ''a'', CharacterNode CHR ''c''])), 1, 2)"
    by code_simp
  have f: "findMatch (OrNode
             (SequenceNode [GroupNode (Some (SequenceNode [CharacterNode CHR ''a''])) 1, CharacterNode CHR ''b''])
             (SequenceNode [CharacterNode CHR ''a'', CharacterNode CHR ''c''])) n ''ac'' []
        = Inr (Some 0, [Some \<lparr>startIndex = 0, endIndex = 2, valid = True\<rparr>,
                        Some \<lparr>startIndex = 0, endIndex = 1, valid = True\<rparr>])"
    by (simp add: findMatch_def findMatch_from.simps attempt_def resize_def atEnd_def
        currentChar_def store_capture_def)
  have m: "main (''(a)b+ac'' @ [CHR 0x5C] @ ''O{1}'') ''ac'' n = Inr (EXIT_SUCCESS, Some ''a'')"
    unfolding main_def p using f by (simp add: printed_def)
  have s: "match (SequenceNode [GroupNode (Some (SequenceNode [CharacterNode CHR ''a''])) 1, CharacterNode CHR ''b'']) n
        \<lparr>input = ''ac'', position = 0, captures = [None], ignoreCase = False\<rparr>
        = Inr (False, \<lparr>input = ''ac'', position = 0,
             captures = [None, Some \<lparr>startIndex = 0, endIndex = 1, valid = True\<rparr>], ignoreCase = False\<rparr>)"
    by (simp add: resize_def atEnd_def currentChar_def store_capture_def)
  have g: "match c fuel ctx = Inr (True, ctx') \<and> match (SequenceNode cs) fuel ctx' = Inr (False, ctx'')
      \<longrightarrow> match (SequenceNode (c # cs)) fuel ctx = Inr (False, ctx''\<lparr>position := position ctx\<rparr>)
          \<and> captures (ctx''\<lparr>position := position ctx\<rparr>) = captures ctx''"
    using seq_loop_fail_saved [of "map (\<lambda>c. match c fuel) cs" "position ctx'" ctx' ctx'' "position ctx"]
    by simp
  show ?thesis using p f m s g by blast
qed

theorem sequence_keeps_captures_witness:
  "match (GroupNode (Some (CharacterNode CHR ''a'')) 1) 0
       \<lparr>input = ''ac'', position = 0, captures = [None], ignoreCase = False\<rparr>
     = Inr (True, \<lparr>input = ''ac'', position = 1,
          captures = [None, Some \<lparr>startIndex = 0, endIndex = 1, valid = True\<rparr>], ignoreCase = False\<rparr>)
   \<and> match (SequenceNode [CharacterNode CHR ''b'']) 0
       \<lparr>input = ''ac'', position = 1,
          captures = [None, Some \<lparr>startIndex = 0, endIndex = 1, valid = True\<rparr>], ignoreCase = False\<rparr>
     = Inr (False, \<lparr>input = ''ac'', position = 1,
          captures = [None, Some \<lparr>startIndex = 0, endIndex = 1, valid = True\<rparr>], ignoreCase = False\<rparr>)
   \<and> match (SequenceNode [GroupNode (Some (CharacterNode CHR ''a'')) 1, CharacterNode CHR ''b'']) 0
       \<lparr>input = ''ac'', position = 0, captures = [None], ignoreCase = False\<rparr>
     = Inr (False, \<lparr>input = ''ac'', position = 0,
          captures = [None, Some \<lparr>startIndex = 0, endIndex = 1, valid = True\<rparr>], ignoreCase = False\<rparr>)"
proof -
  let ?c0 = "\<lparr>input = ''ac'', position = 0, captures = [None], ignoreCase = False\<rparr>"
  let ?c1 = "\<lparr>input = ''ac'', position = 1,
          captures = [None, Some \<lparr>startIndex = 0, endIndex = 1, valid = True\<rparr>], ignoreCase = False\<rparr>"
  have a: "match (GroupNode (Some (CharacterNode CHR ''a'')) 1) 0 ?c0 = Inr (True, ?c1)"
    by (simp add: resize_def atEnd_def currentChar_def store_capture_def)
  have b: "match (SequenceNode [CharacterNode CHR ''b'']) 0 ?c1 = Inr (False, ?c1)"
    by (simp add: atEnd_def currentChar_def)
  from sequence_keeps_captures [where c = "GroupNode (Some (CharacterNode CHR ''a'')) 1"
      and fuel = 0 and ctx = ?c0 and ctx' = ?c1 and cs = "[CharacterNode CHR ''b'']" and ctx'' = ?c1,
      THEN conjunct1, rule_format, OF conjI [OF a b]]
  show ?thesis using a b by simp
qed

section \<open>The search driver returns the leftmost match\<close>

lemma findMatch_from_None:
  "findMatch_from ast fuel inp caps start = Inr (None, caps') \<longleftrightarrow>
     caps' = caps \<and> (\<forall>s. start \<le> s \<and> s \<le> length inp \<longrightarrow>
        (\<exists>ctx. attempt ast fuel inp caps s = Inr (False, ctx)))"
proof (induction ast fuel inp caps start rule: findMatch_from.induct)
  case (1 ast fuel inp caps start)
  show ?case
  proof (cases "start \<le> length inp")
    case False
    then show ?thesis by (subst findMatch_from.simps) auto
  next
    case True
    show ?thesis
    proof (cases "attempt ast fuel inp caps start")
      case (Inl e)
      then show ?thesis using True by (subst findMatch_from.simps) auto
    next
      case (Inr r)
      obtain ok ctx where r: "r = (ok, ctx)" by (cases r)
      show ?thesis
      proof (cases ok)
        case True
        then show ?thesis using \<open>start \<le> length inp\<close> Inr r
          by (subst findMatch_from.simps) auto
      next
        case False
        have "findMatch_from ast fuel inp caps start = findMatch_from ast fuel inp caps (start + 1)"
          using \<open>start \<le> length inp\<close> Inr r False by (subst findMatch_from.simps) simp
        moreover have "(\<forall>s. start \<le> s \<and> s \<le> length inp \<longrightarrow>
              (\<exists>ctx. attempt ast fuel inp caps s = Inr (False, ctx)))
          \<longleftrightarrow> (\<forall>s. start + 1 \<le> s \<and> s \<le> length inp \<longrightarrow>
              (\<exists>ctx. attempt ast fuel inp caps s = Inr (False, ctx)))"
        proof
          assume a: "\<forall>s. start + 1 \<le> s \<and> s \<le> length inp \<longrightarrow>
              (\<exists>ctx. attempt ast fuel inp caps s = Inr (False, ctx))"
          show "\<forall>s. start \<le> s \<and> s \<le> length inp \<longrightarrow>
              (\<exists>ctx. attempt ast fuel inp caps s = Inr (False, ctx))"
          proof (intro allI impI)
            fix s assume "start \<le> s \<and> s \<le> length inp"
            then consider "s = start" | "start + 1 \<le> s \<and> s \<le> length inp" by linarith
            then show "\<exists>ctx. attempt ast fuel inp caps s = Inr (False, ctx)"
              using a Inr r False by cases auto
          qed
        qed auto
        ultimately show ?thesis
          using 1 [OF \<open>start \<le> length inp\<close> Inr r [symmetric]] False by simp
      qed
    qed
  qed
qed

lemma findMatch_from_Some:
  "findMatch_from ast fuel inp caps start = Inr (Some s, caps') \<longleftrightarrow>
     start \<le> s \<and> s \<le> length inp
     \<and> (\<forall>s'. start \<le> s' \<and> s' < s \<longrightarrow> (\<exists>ctx. attempt ast fuel inp caps s' = Inr (False, ctx)))
     \<and> (\<exists>ctx. attempt ast fuel inp caps s = Inr (True, ctx)
          \<and> caps' = (if captures ctx ! 0 = None
                      then (captures ctx)[0 := Some \<lparr>startIndex = s, endIndex = position ctx, valid = True\<rparr>]
                      else captures ctx))"
  (is "?L start \<longleftrightarrow> ?R start")
proof (induction ast fuel inp caps start rule: findMatch_from.induct)
  case (1 ast fuel inp caps start)
  show ?case
  proof (cases "start \<le> length inp")
    case False
    then show ?thesis by (subst findMatch_from.simps) auto
  next
    case True
    show ?thesis
    proof (cases "attempt ast fuel inp caps start")
      case (Inl e)
      have "findMatch_from ast fuel inp caps start = Inl e"
        using True Inl by (subst findMatch_from.simps) simp
      moreover have "\<not> (start \<le> s \<and> s \<le> length inp
         \<and> (\<forall>s'. start \<le> s' \<and> s' < s \<longrightarrow> (\<exists>ctx. attempt ast fuel inp caps s' = Inr (False, ctx)))
         \<and> (\<exists>ctx. attempt ast fuel inp caps s = Inr (True, ctx)
          \<and> caps' = (if captures ctx ! 0 = None
                      then (captures ctx)[0 := Some \<lparr>startIndex = s, endIndex = position ctx, valid = True\<rparr>]
                      else captures ctx)))"
      proof
        assume a: "start \<le> s \<and> s \<le> length inp
         \<and> (\<forall>s'. start \<le> s' \<and> s' < s \<longrightarrow> (\<exists>ctx. attempt ast fuel inp caps s' = Inr (False, ctx)))
         \<and> (\<exists>ctx. attempt ast fuel inp caps s = Inr (True, ctx)
          \<and> caps' = (if captures ctx ! 0 = None
                      then (captures ctx)[0 := Some \<lparr>startIndex = s, endIndex = position ctx, valid = True\<rparr>]
                      else captures ctx))"
        then have "s = start \<or> start < s" by linarith
        then show False using a Inl by auto
      qed
      ultimately show ?thesis by simp
    next
      case (Inr r)
      obtain ok ctx where r: "r = (ok, ctx)" by (cases r)
      show ?thesis
      proof (cases ok)
        case True
        have eq: "findMatch_from ast fuel inp caps start = Inr (Some start,
             if captures ctx ! 0 = None
             then (captures ctx)[0 := Some \<lparr>startIndex = start, endIndex = position ctx, valid = True\<rparr>]
             else captures ctx)"
          using \<open>start \<le> length inp\<close> Inr r True by (subst findMatch_from.simps) simp
        show ?thesis
        proof
          assume "findMatch_from ast fuel inp caps start = Inr (Some s, caps')"
          then show "start \<le> s \<and> s \<le> length inp
             \<and> (\<forall>s'. start \<le> s' \<and> s' < s \<longrightarrow> (\<exists>ctx. attempt ast fuel inp caps s' = Inr (False, ctx)))
             \<and> (\<exists>ctx. attempt ast fuel inp caps s = Inr (True, ctx)
              \<and> caps' = (if captures ctx ! 0 = None
                      then (captures ctx)[0 := Some \<lparr>startIndex = s, endIndex = position ctx, valid = True\<rparr>]
                      else captures ctx))"
            using eq Inr r True \<open>start \<le> length inp\<close> by auto
        next
          assume a: "start \<le> s \<and> s \<le> length inp
             \<and> (\<forall>s'. start \<le> s' \<and> s' < s \<longrightarrow> (\<exists>ctx. attempt ast fuel inp caps s' = Inr (False, ctx)))
             \<and> (\<exists>ctx. attempt ast fuel inp caps s = Inr (True, ctx)
              \<and> caps' = (if captures ctx ! 0 = None
                      then (captures ctx)[0 := Some \<lparr>startIndex = s, endIndex = position ctx, valid = True\<rparr>]
                      else captures ctx))"
          have "s = start"
          proof (rule ccontr)
            assume "s \<noteq> start"
            then have "start < s" using a by linarith
            then have "\<exists>ctx. attempt ast fuel inp caps start = Inr (False, ctx)" using a by blast
            then show False using Inr r True by simp
          qed
          then show "findMatch_from ast fuel inp caps start = Inr (Some s, caps')"
            using eq a Inr r True by auto
        qed
      next
        case False
        have eq: "findMatch_from ast fuel inp caps start = findMatch_from ast fuel inp caps (start + 1)"
          using \<open>start \<le> length inp\<close> Inr r False by (subst findMatch_from.simps) simp
        have fail: "attempt ast fuel inp caps start = Inr (False, ctx)" using Inr r False by simp
        have "(start \<le> s \<and> s \<le> length inp
             \<and> (\<forall>s'. start \<le> s' \<and> s' < s \<longrightarrow> (\<exists>ctx. attempt ast fuel inp caps s' = Inr (False, ctx)))
             \<and> (\<exists>ctx. attempt ast fuel inp caps s = Inr (True, ctx)
              \<and> caps' = (if captures ctx ! 0 = None
                      then (captures ctx)[0 := Some \<lparr>startIndex = s, endIndex = position ctx, valid = True\<rparr>]
                      else captures ctx)))
          \<longleftrightarrow> (start + 1 \<le> s \<and> s \<le> length inp
             \<and> (\<forall>s'. start + 1 \<le> s' \<and> s' < s \<longrightarrow> (\<exists>ctx. attempt ast fuel inp caps s' = Inr (False, ctx)))
             \<and> (\<exists>ctx. attempt ast fuel inp caps s = Inr (True, ctx)
              \<and> caps' = (if captures ctx ! 0 = None
                      then (captures ctx)[0 := Some \<lparr>startIndex = s, endIndex = position ctx, valid = True\<rparr>]
                      else captures ctx)))" (is "?A \<longleftrightarrow> ?B")
        proof
          assume a: ?A
          then have "s \<noteq> start" using fail by auto
          then show ?B using a by auto
        next
          assume b: ?B
          have "\<forall>s'. start \<le> s' \<and> s' < s \<longrightarrow> (\<exists>ctx. attempt ast fuel inp caps s' = Inr (False, ctx))"
          proof (intro allI impI)
            fix s' assume "start \<le> s' \<and> s' < s"
            then consider "s' = start" | "start + 1 \<le> s' \<and> s' < s" by linarith
            then show "\<exists>ctx. attempt ast fuel inp caps s' = Inr (False, ctx)"
              using b fail by cases auto
          qed
          then show ?A using b by auto
        qed
        then show ?thesis
          using 1 [OF \<open>start \<le> length inp\<close> Inr r [symmetric]] False eq by simp
      qed
    qed
  qed
qed

text \<open>
  Claim C5. Every attempt of the driver starts from a context built from the same arguments
  (position \<open>start\<close>, the caller's vector resized to one slot, which is one absent slot for
  the empty vector that \<^verbatim>\<open>main\<close> passes, case flag off), so no attempt sees what an earlier
  one wrote. The driver returns offset \<open>s\<close> exactly when \<open>s\<close> is at most the length of the
  text, the attempt at every smaller offset returned failure and the attempt at \<open>s\<close> returned
  success; the vector it hands back is the one of that attempt, with slot 0 set to the
  span from \<open>s\<close> to the final position when the attempt left slot 0 absent. It reports no
  match, leaving the caller's vector alone, exactly when the attempt at every offset from 0
  to the length of the text returned failure.
\<close>

theorem findMatch_leftmost:
  "attempt ast fuel inp caps start
     = match ast fuel \<lparr>input = inp, position = start, captures = resize 1 caps, ignoreCase = False\<rparr>
   \<and> resize 1 ([] :: CaptureGroup option list) = [None]
   \<and> (findMatch ast fuel inp caps = Inr (Some s, caps') \<longleftrightarrow>
        s \<le> length inp
        \<and> (\<forall>s'<s. \<exists>ctx. attempt ast fuel inp caps s' = Inr (False, ctx))
        \<and> (\<exists>ctx. attempt ast fuel inp caps s = Inr (True, ctx)
             \<and> caps' = (if captures ctx ! 0 = None
                         then (captures ctx)[0 := Some \<lparr>startIndex = s, endIndex = position ctx, valid = True\<rparr>]
                         else captures ctx)))
   \<and> (findMatch ast fuel inp caps = Inr (None, caps') \<longleftrightarrow>
        caps' = caps \<and> (\<forall>s\<le>length inp. \<exists>ctx. attempt ast fuel inp caps s = Inr (False, ctx)))"
  unfolding findMatch_def findMatch_from_Some findMatch_from_None
  by (simp add: attempt_def resize_def)

theorem findMatch_leftmost_witness:
  "attempt (CharacterNode CHR ''b'') 0 ''ab'' [] 0
     = Inr (False, \<lparr>input = ''ab'', position = 0, captures = [None], ignoreCase = False\<rparr>)
   \<and> attempt (CharacterNode CHR ''b'') 0 ''ab'' [] 1
     = Inr (True, \<lparr>input = ''ab'', position = 2, captures = [None], ignoreCase = False\<rparr>)
   \<and> findMatch (CharacterNode CHR ''b'') 0 ''ab'' []
     = Inr (Some 1, [Some \<lparr>startIndex = 1, endIndex = 2, valid = True\<rparr>])
   \<and> findMatch (CharacterNode CHR ''b'') 0 ''aa'' [] = Inr (None, [])"
proof -
  have a0: "attempt (CharacterNode CHR ''b'') 0 ''ab'' [] 0
     = Inr (False, \<lparr>input = ''ab'', position = 0, captures = [None], ignoreCase = False\<rparr>)"
    by (simp add: attempt_def resize_def atEnd_def currentChar_def)
  have a1: "attempt (CharacterNode CHR ''b'') 0 ''ab'' [] 1
     = Inr (True, \<lparr>input = ''ab'', position = 2, captures = [None], ignoreCase = False\<rparr>)"
    by (simp add: attempt_def resize_def atEnd_def currentChar_def)
  have b: "\<forall>s\<le>length ''aa''. \<exists>ctx. attempt (CharacterNode CHR ''b'') 0 ''aa'' [] s = Inr (False, ctx)"
    by (simp add: attempt_def resize_def atEnd_def currentChar_def nth_Cons split: nat.splits)
  have f1: "findMatch (CharacterNode CHR ''b'') 0 ''ab'' []
     = Inr (Some 1, [Some \<lparr>startIndex = 1, endIndex = 2, valid = True\<rparr>])"
    using a0 a1
      findMatch_leftmost [where ast = "CharacterNode CHR ''b''" and fuel = 0 and inp = "''ab''"
        and caps = "[]" and s = 1
        and caps' = "[Some \<lparr>startIndex = 1, endIndex = 2, valid = True\<rparr>]"]
    by simp
  have f2: "findMatch (CharacterNode CHR ''b'') 0 ''aa'' [] = Inr (None, [])"
    using b
      findMatch_leftmost [where ast = "CharacterNode CHR ''b''" and fuel = 0 and inp = "''aa''"
        and caps = "[]" and caps' = "[]"]
    by blast
  show ?thesis using a0 a1 f1 f2 by blast
qed

section \<open>Patterns whose match does not return\<close>

text \<open>
  Claim C4 says that every node the parser produces returns success or failure from every
  context. The pattern \<open>()\<close> is compiled (the \<^verbatim>\<open>nullptr\<close> of the empty expression goes into
  the \<^verbatim>\<open>GroupNode\<close> unchecked), and matching the resulting tree calls through the null
  pointer from every context. Where a call does return, it obeys \<open>match_contract\<close>.
\<close>

theorem null_group_crashes:
  "parsePattern ''()'' 0 1 = Inr (Some (SequenceNode [GroupNode None 1]), 0, 2)
   \<and> match (SequenceNode [GroupNode None 1]) fuel ctx = Inl NullDeref
   \<and> main ''()'' inp fuel = Inl NullDeref"
proof -
  have p: "parsePattern ''()'' 0 1 = Inr (Some (SequenceNode [GroupNode None 1]), 0, 2)"
    by code_simp
  have m: "\<And>ctx. match (SequenceNode [GroupNode None 1]) fuel ctx = Inl NullDeref"
    by simp
  have "main ''()'' inp fuel = Inl NullDeref"
    unfolding main_def p
    by (simp add: findMatch_def findMatch_from.simps attempt_def)
  then show ?thesis using p m by simp
qed

text \<open>
  A \<^verbatim>\<open>StarNode\<close> whose child succeeds from every context never leaves its loop: the model
  runs out of fuel for every bound below \<^verbatim>\<open>INT_MAX\<close>, and beyond it the counter overflows.
\<close>

lemma star_loop_never_leaves:
  assumes "\<forall>ctx. \<exists>ctx'. m ctx = Inr (True, ctx')"
    and "cnt \<le> 2147483647"
  shows "star_loop fuel m cnt ctx
     = Inl (if int fuel + cnt \<le> 2147483647 then OutOfFuel else IntOverflow)"
  using assms(2)
proof (induction fuel arbitrary: cnt ctx)
  case 0
  then show ?case by simp
next
  case (Suc fuel)
  obtain ctx' where s: "m ctx = Inr (True, ctx')" using assms(1) by blast
  show ?case
  proof (cases "cnt = 2147483647")
    case True
    then show ?thesis using s by simp
  next
    case False
    then have "cnt + 1 \<le> 2147483647" using Suc.prems by simp
    from Suc.IH [OF this, of ctx'] False s show ?thesis by (simp add: add.commute add.left_commute)
  qed
qed

text \<open>
  Claim C10 says that matching terminates for every tree the parser produces. The pattern
  \<open>(a{0})*\<close> is compiled to a \<^verbatim>\<open>StarNode\<close> over a group that succeeds without consuming
  anything, and its match returns for no amount of fuel, from any context and on any text.
\<close>

theorem star_of_empty_match_diverges:
  "parsePattern ''(a{0})*'' 0 1
     = Inr (Some (SequenceNode
          [StarNode (GroupNode (Some (SequenceNode [CountNode (CharacterNode CHR ''a'') 0])) 1)]), 0, 2)
   \<and> match (SequenceNode
          [StarNode (GroupNode (Some (SequenceNode [CountNode (CharacterNode CHR ''a'') 0])) 1)]) fuel ctx
     = Inl (if fuel \<le> 2147483647 then OutOfFuel else IntOverflow)
   \<and> main ''(a{0})*'' inp fuel = Inl (if fuel \<le> 2147483647 then OutOfFuel else IntOverflow)"
proof -
  let ?g = "GroupNode (Some (SequenceNode [CountNode (CharacterNode CHR ''a'') 0])) 1"
  have p: "parsePattern ''(a{0})*'' 0 1 = Inr (Some (SequenceNode [StarNode ?g]), 0, 2)"
    by code_simp
  have g: "\<forall>ctx. \<exists>ctx'. match ?g fuel ctx = Inr (True, ctx')"
    by simp
  have s: "\<And>ctx. star_loop fuel (match ?g fuel) 0 ctx
      = Inl (if int fuel + 0 \<le> 2147483647 then OutOfFuel else IntOverflow)"
    using g by (intro star_loop_never_leaves) auto
  have m: "\<And>ctx. match (SequenceNode [StarNode ?g]) fuel ctx
      = Inl (if fuel \<le> 2147483647 then OutOfFuel else IntOverflow)"
    using s by simp
  have "main ''(a{0})*'' inp fuel = Inl (if fuel \<le> 2147483647 then OutOfFuel else IntOverflow)"
    unfolding main_def p
    by (simp add: findMatch_def findMatch_from.simps [of _ _ _ _ 0] attempt_def m del: match.simps)
  then show ?thesis using p m by simp
qed

section \<open>Lemmas about the cursor\<close>

lemma digits_loop_takeWhile:
  "digits_loop ds cur =
     (ds @ takeWhile isdigit (drop (pos cur) (text_cur cur)),
      cur\<lparr>pos := pos cur + length (takeWhile isdigit (drop (pos cur) (text_cur cur)))\<rparr>)"
proof (induction ds cur rule: digits_loop.induct)
  case (1 digits cur)
  show ?case
  proof (cases "end_cur cur")
    case True
    then show ?thesis by (subst digits_loop.simps) (simp add: end_cur_def)
  next
    case False
    then have d: "drop (pos cur) (text_cur cur) = current cur # drop (Suc (pos cur)) (text_cur cur)"
      by (simp add: end_cur_def current_def Cons_nth_drop_Suc)
    show ?thesis
    proof (cases "isdigit (current cur)")
      case False
      then show ?thesis using d by (subst digits_loop.simps) simp
    next
      case True
      have a: "advance cur = cur\<lparr>pos := Suc (pos cur)\<rparr>"
        using \<open>\<not> end_cur cur\<close> by (simp add: advance_def)
      have "digits_loop digits cur = digits_loop (digits @ [current cur]) (advance cur)"
        using True \<open>\<not> end_cur cur\<close> by (subst digits_loop.simps) simp
      also have "\<dots> = (digits @ [current cur] @ takeWhile isdigit (drop (Suc (pos cur)) (text_cur cur)),
          cur\<lparr>pos := Suc (pos cur) + length (takeWhile isdigit (drop (Suc (pos cur)) (text_cur cur)))\<rparr>)"
        using 1 True \<open>\<not> end_cur cur\<close> by (simp add: a)
      finally show ?thesis using d True by simp
    qed
  qed
qed

lemma drop_cursor:
  "\<not> end_cur cur \<Longrightarrow> drop (pos cur) (text_cur cur) = current cur # drop (pos (advance cur)) (text_cur (advance cur))"
  by (simp add: end_cur_def current_def advance_def Cons_nth_drop_Suc)

lemma advance_restore [simp]: "(advance cur)\<lparr>pos := p\<rparr> = cur\<lparr>pos := p\<rparr>"
  by (simp add: advance_def)

lemma text_cur_advance [simp]: "text_cur (advance cur) = text_cur cur"
  by (simp add: advance_def)

lemma matchChar_drop:
  "fst (matchChar cur x) \<longleftrightarrow> take 1 (drop (pos cur) (text_cur cur)) = [x]"
  "fst (matchChar cur x) \<Longrightarrow> snd (matchChar cur x) = cur\<lparr>pos := Suc (pos cur)\<rparr>"
proof -
  show "fst (matchChar cur x) \<longleftrightarrow> take 1 (drop (pos cur) (text_cur cur)) = [x]"
  proof (cases "end_cur cur")
    case True
    then show ?thesis by (simp add: matchChar_def end_cur_def)
  next
    case False
    then have "drop (pos cur) (text_cur cur) = current cur # drop (Suc (pos cur)) (text_cur cur)"
      by (simp add: end_cur_def current_def Cons_nth_drop_Suc)
    then show ?thesis using False by (auto simp: matchChar_def)
  qed
  show "fst (matchChar cur x) \<Longrightarrow> snd (matchChar cur x) = cur\<lparr>pos := Suc (pos cur)\<rparr>"
    by (auto simp: matchChar_def advance_def split: if_splits)
qed

lemma drop_cursor_end: "end_cur cur \<Longrightarrow> drop (pos cur) (text_cur cur) = []"
  by (simp add: end_cur_def)

lemma parseOutput_directive:
  "parseOutput cur d =
     (case output_directive (drop (pos cur) (text_cur cur)) of
        None \<Rightarrow> Inr (cur, d)
      | Some ds \<Rightarrow>
          (case stoi ds of
             Inl e \<Rightarrow> Inl e
           | Inr n \<Rightarrow> Inr (cur\<lparr>pos := pos cur + length ds + 4\<rparr>, n)))"
proof (cases "end_cur cur")
  case True
  then show ?thesis by (simp add: parseOutput_def output_directive_def drop_cursor_end)
next
  case e0: False
  let ?c1 = "advance cur"
  note d0 = drop_cursor [OF e0]
  show ?thesis
  proof (cases "current cur = CHR 0x5C")
    case False
    then show ?thesis using e0 d0
      by (simp add: parseOutput_def output_directive_def split: list.splits)
  next
    case b: True
    have p1: "pos ?c1 = Suc (pos cur)" "text_cur ?c1 = text_cur cur" using e0 by (simp_all add: advance_def)
    show ?thesis
    proof (cases "end_cur ?c1")
      case True
      then show ?thesis using e0 b d0 drop_cursor_end [OF True]
        by (simp add: parseOutput_def output_directive_def Let_def)
    next
      case e1: False
      let ?c2 = "advance ?c1"
      note d1 = drop_cursor [OF e1]
      have p2: "pos ?c2 = Suc (Suc (pos cur))" "text_cur ?c2 = text_cur cur"
        using e1 p1 by (simp_all add: advance_def)
      show ?thesis
      proof (cases "current ?c1 = CHR ''O'' \<or> current ?c1 = CHR ''o''")
        case False
        then show ?thesis using e0 b e1 d0 d1
          by (simp add: parseOutput_def output_directive_def Let_def advance_def split: list.splits)
      next
        case oc: True
        show ?thesis
        proof (cases "end_cur ?c2")
          case True
          then show ?thesis using e0 b e1 oc d0 d1 drop_cursor_end [OF True]
            by (simp add: parseOutput_def output_directive_def Let_def advance_def)
        next
          case e2: False
          let ?c3 = "advance ?c2"
          note d2 = drop_cursor [OF e2]
          have p3: "pos ?c3 = Suc (Suc (Suc (pos cur)))" "text_cur ?c3 = text_cur cur"
            using e2 p2 by (simp_all add: advance_def)
          show ?thesis
          proof (cases "current ?c2 = CHR ''{''")
            case False
            then show ?thesis using e0 b e1 oc e2 d0 d1 d2
              by (simp add: parseOutput_def output_directive_def Let_def advance_def split: list.splits)
          next
            case l: True
            define c3 where "c3 = advance (advance (advance cur))"
            define rest where "rest = drop (pos c3) (text_cur c3)"
            define ds where "ds = takeWhile isdigit rest"
            define c4 where "c4 = c3\<lparr>pos := pos c3 + length ds\<rparr>"
            have q3: "pos c3 = pos cur + 3" "text_cur c3 = text_cur cur"
              using p3 by (simp_all add: c3_def)
            have dl: "digits_loop [] c3 = (ds, c4)"
              by (simp add: digits_loop_takeWhile ds_def c4_def rest_def)
            have d3: "drop (pos cur) (text_cur cur) = CHR 0x5C # current ?c1 # CHR ''{'' # rest"
              using b l d0 d1 d2 by (simp add: rest_def c3_def)
            have od: "output_directive (drop (pos cur) (text_cur cur))
                = (if ds \<noteq> [] \<and> take 1 (dropWhile isdigit rest) = ''}'' then Some ds else None)"
              unfolding d3 using oc by (auto simp: output_directive_def ds_def)
            have r4: "drop (pos c4) (text_cur c4) = dropWhile isdigit rest"
            proof -
              have "drop (pos c4) (text_cur c4) = drop (length ds) rest"
                by (simp add: c4_def rest_def add.commute)
              also have "\<dots> = dropWhile isdigit rest"
                by (simp add: dropWhile_eq_drop ds_def)
              finally show ?thesis .
            qed
            have mc: "fst (matchChar c4 (CHR ''}'')) \<longleftrightarrow> take 1 (dropWhile isdigit rest) = ''}''"
              by (simp only: matchChar_drop(1) r4)
            have c4': "c4 = cur\<lparr>pos := pos cur + length ds + 3\<rparr>"
              using q3 by (simp add: c4_def c3_def)
            have mc2: "fst (matchChar c4 (CHR ''}'')) \<Longrightarrow>
                snd (matchChar c4 (CHR ''}'')) = cur\<lparr>pos := pos cur + length ds + 4\<rparr>"
              using matchChar_drop(2) [of c4 "CHR ''}''"] by (simp add: c4')
            have restored: "c4\<lparr>pos := pos cur\<rparr> = cur" by (simp add: c4')
            have po: "parseOutput cur d =
                (if ds \<noteq> [] \<and> fst (matchChar c4 (CHR ''}''))
                 then (case stoi ds of Inl e \<Rightarrow> Inl e
                       | Inr n \<Rightarrow> Inr (snd (matchChar c4 (CHR ''}'')), n))
                 else Inr (c4\<lparr>pos := pos cur\<rparr>, d))"
              unfolding parseOutput_def Let_def c3_def [symmetric]
              using e0 b e1 oc e2 l by (simp add: dl)
            show ?thesis
              unfolding po od restored using mc mc2 by (auto split: sum.splits)
          qed
        qed
      qed
    qed
  qed
qed

lemma text_cur_matchChar [simp]: "text_cur (snd (matchChar cur x)) = text_cur cur"
  by (simp add: matchChar_def)

lemma text_cur_digits_loop [simp]: "text_cur (snd (digits_loop ds cur)) = text_cur cur"
  by (simp add: digits_loop_takeWhile)

lemma text_cur_parseCount:
  "parseCount base cur = Inr (r, cur') \<Longrightarrow> text_cur cur' = text_cur cur"
proof -
  assume a: "parseCount base cur = Inr (r, cur')"
  obtain star cur1 where m1: "matchChar cur (CHR ''*'') = (star, cur1)" by force
  obtain digits cur2 where d: "digits_loop [] (advance cur1) = (digits, cur2)" by force
  obtain closed cur3 where m3: "matchChar cur2 (CHR ''}'') = (closed, cur3)" by force
  have t1: "text_cur cur1 = text_cur cur" using text_cur_matchChar [of cur "CHR ''*''"] m1 by simp
  have "text_cur cur2 = text_cur (advance cur1)"
    using text_cur_digits_loop [of "[]" "advance cur1"] d by simp
  then have t3: "text_cur cur3 = text_cur cur"
    using text_cur_matchChar [of cur2 "CHR ''}''"] m3 t1 by simp
  have "cur' = cur1 \<or> cur' = cur3"
    using a m1 d m3 by (simp add: parseCount_def split: if_splits sum.splits)
  then show ?thesis using t1 t3 by auto
qed

lemma text_cur_parseIgnoreCase [simp]: "text_cur (snd (parseIgnoreCase base cur)) = text_cur cur"
  by (simp add: parseIgnoreCase_def Let_def)

lemma text_cur_parseSuffix:
  assumes "parseSuffix base cur = Inr (n, cur')"
  shows "text_cur cur' = text_cur cur"
proof -
  obtain expanded cur1 where pc: "parseCount base cur = Inr (expanded, cur1)"
    using assms by (auto simp: parseSuffix_def split: sum.splits)
  define base1 where "base1 = (case expanded of Some n \<Rightarrow> n | None \<Rightarrow> base)"
  have "cur' = snd (parseIgnoreCase base1 cur1)"
    using assms pc by (auto simp: parseSuffix_def base1_def Let_def split: prod.splits)
  then show ?thesis
    using text_cur_parseCount [OF pc] by simp
qed

section \<open>Induction and case analysis for the parser\<close>

lemma parse_induct [case_names parseExpr parseExpr_loop parseTerm parseTerm_loop parseFactor parseGroup]:
  assumes "\<And>cur gc. \<lbrakk>P3 cur gc;
              \<And>left cur1 gc1. parseTerm cur gc = Inr (Some left, cur1, gc1) \<Longrightarrow> P2 left cur1 gc1\<rbrakk>
            \<Longrightarrow> P1 cur gc"
    and "\<And>left cur gc. \<lbrakk>fst (matchChar cur (CHR ''+'')) \<Longrightarrow> P3 (snd (matchChar cur (CHR ''+''))) gc;
              \<And>right cur1 gc1. \<lbrakk>fst (matchChar cur (CHR ''+''));
                  parseTerm (snd (matchChar cur (CHR ''+''))) gc = Inr (Some right, cur1, gc1)\<rbrakk>
                \<Longrightarrow> P2 (OrNode left right) cur1 gc1\<rbrakk>
            \<Longrightarrow> P2 left cur gc"
    and "\<And>cur gc. P4 [] cur gc \<Longrightarrow> P3 cur gc"
    and "\<And>children cur gc. \<lbrakk>P5 cur gc;
              \<And>f cur1 gc1. parseFactor cur gc = Inr (Some f, cur1, gc1) \<Longrightarrow> P4 (children @ [f]) cur1 gc1\<rbrakk>
            \<Longrightarrow> P4 children cur gc"
    and "\<And>cur gc. (fst (matchChar cur (CHR ''('')) \<Longrightarrow> P6 (snd (matchChar cur (CHR ''(''))) gc)
            \<Longrightarrow> P5 cur gc"
    and "\<And>cur gc. P1 cur gc \<Longrightarrow> P6 cur gc"
  shows "P1 c1 g1" and "P2 l2 c2 g2" and "P3 c3 g3" and "P4 s4 c4 g4" and "P5 c5 g5" and "P6 c6 g6"
proof (induction c1 g1 and l2 c2 g2 and c3 g3 and s4 c4 g4 and c5 g5 and c6 g6
    rule: parseExpr_parseExpr_loop_parseTerm_parseTerm_loop_parseFactor_parseGroup.induct)
  case (1 cur gc)
  show ?case by (rule assms(1)) (use 1 in auto)
next
  case (2 left cur gc)
  show ?case by (rule assms(2)) (use 2 in auto)
next
  case (3 cur gc)
  show ?case by (rule assms(3)) (use 3 in auto)
next
  case (4 children cur gc)
  show ?case by (rule assms(4)) (use 4 in auto)
next
  case (5 cur gc)
  show ?case by (rule assms(5)) (use 5 in auto)
next
  case (6 cur gc)
  show ?case by (rule assms(6)) (use 6 in auto)
qed

lemma parseExpr_cases:
  assumes "parseExpr cur gc = Inr (r, c', g')"
  obtains (empty) cur1 gc1 where "parseTerm cur gc = Inr (None, cur1, gc1)"
      and "r = None" and "c' = cur1" and "g' = gc1"
    | (loop) left cur1 gc1 where "parseTerm cur gc = Inr (Some left, cur1, gc1)"
      and "parseExpr_loop left cur1 gc1 = Inr (r, c', g')"
  using assms
  by (subst (asm) parseExpr.simps) (auto split: sum.splits option.splits)

lemma parseExpr_loop_cases:
  assumes "parseExpr_loop left cur gc = Inr (r, c', g')"
  obtains (stop) "\<not> fst (matchChar cur (CHR ''+''))" and "r = Some left" and "c' = cur" and "g' = gc"
    | (empty) cur1 gc1 where "fst (matchChar cur (CHR ''+''))"
      and "parseTerm (snd (matchChar cur (CHR ''+''))) gc = Inr (None, cur1, gc1)"
      and "r = None" and "c' = cur1" and "g' = gc1"
    | (loop) right cur1 gc1 where "fst (matchChar cur (CHR ''+''))"
      and "parseTerm (snd (matchChar cur (CHR ''+''))) gc = Inr (Some right, cur1, gc1)"
      and "parseExpr_loop (OrNode left right) cur1 gc1 = Inr (r, c', g')"
  using assms
  by (subst (asm) parseExpr_loop.simps) (auto split: sum.splits option.splits if_splits)

lemma parseTerm_loop_cases:
  assumes "parseTerm_loop children cur gc = Inr (r, c', g')"
  obtains (stop) cur1 gc1 where "parseFactor cur gc = Inr (None, cur1, gc1)"
      and "r = (if children \<noteq> [] then Some (SequenceNode children) else None)"
      and "c' = cur1" and "g' = gc1"
    | (loop) f cur1 gc1 where "parseFactor cur gc = Inr (Some f, cur1, gc1)"
      and "parseTerm_loop (children @ [f]) cur1 gc1 = Inr (r, c', g')"
proof -
  from assms have "(case parseFactor cur gc of
        Inl e \<Rightarrow> Inl e
      | Inr (None, cur1, gc1) \<Rightarrow>
          Inr (if children \<noteq> [] then Some (SequenceNode children) else None, cur1, gc1)
      | Inr (Some f, cur1, gc1) \<Rightarrow> parseTerm_loop (children @ [f]) cur1 gc1) = Inr (r, c', g')"
    by (simp add: parseTerm_loop.simps [of children cur gc])
  then show ?thesis
    using that by (auto split: sum.splits option.splits)
qed

lemma parseFactor_cases:
  assumes "parseFactor cur gc = Inr (r, c', g')"
  obtains (group) "fst (matchChar cur (CHR ''(''))"
      and "parseGroup (snd (matchChar cur (CHR ''(''))) gc = Inr (r, c', g')"
    | (dot) base where "\<not> fst (matchChar cur (CHR ''(''))" and "\<not> end_cur cur" and "current cur = CHR ''.''"
      and "parseSuffix DotNode (advance cur) = Inr (base, c')" and "r = Some base" and "g' = gc"
    | (char) base where "\<not> fst (matchChar cur (CHR ''(''))" and "\<not> end_cur cur"
      and "current cur \<noteq> CHR ''.''" and "\<not> special (current cur)"
      and "parseSuffix (CharacterNode (current cur)) (advance cur) = Inr (base, c')"
      and "r = Some base" and "g' = gc"
    | (none) "\<not> fst (matchChar cur (CHR ''(''))" and "end_cur cur \<or> current cur \<noteq> CHR ''.'' \<and> special (current cur)"
      and "r = None" and "c' = cur" and "g' = gc"
proof (cases "fst (matchChar cur (CHR ''(''))")
  case True
  then have "parseFactor cur gc = parseGroup (snd (matchChar cur (CHR ''(''))) gc"
    by (simp add: parseFactor.simps [of cur gc])
  then show ?thesis using assms that(1) True by simp
next
  case nogroup: False
  show ?thesis
  proof (cases "\<not> end_cur cur \<and> current cur = CHR ''.''")
    case True
    then have "parseFactor cur gc = (case parseSuffix DotNode (advance cur) of
           Inl e \<Rightarrow> Inl e
         | Inr (base, cur1) \<Rightarrow> Inr (Some base, cur1, gc))"
      using nogroup by (simp add: parseFactor.simps [of cur gc])
    then obtain base where "parseSuffix DotNode (advance cur) = Inr (base, c')" "r = Some base" "g' = gc"
      using assms by (auto split: sum.splits)
    then show ?thesis using that(2) nogroup True by blast
  next
    case nodot: False
    show ?thesis
    proof (cases "\<not> end_cur cur \<and> \<not> special (current cur)")
      case True
      then have "parseFactor cur gc = (case parseSuffix (CharacterNode (current cur)) (advance cur) of
           Inl e \<Rightarrow> Inl e
         | Inr (base, cur1) \<Rightarrow> Inr (Some base, cur1, gc))"
        using nogroup nodot by (simp add: parseFactor.simps [of cur gc])
      then obtain base where "parseSuffix (CharacterNode (current cur)) (advance cur) = Inr (base, c')"
          "r = Some base" "g' = gc"
        using assms by (auto split: sum.splits)
      then show ?thesis using that(3) nogroup nodot True by blast
    next
      case False
      then have "parseFactor cur gc = Inr (None, cur, gc)"
        using nogroup nodot by (cases "end_cur cur") (simp_all add: parseFactor.simps [of cur gc])
      then have "r = None" "c' = cur" "g' = gc" using assms by simp_all
      then show ?thesis using that(4) nogroup nodot False by blast
    qed
  qed
qed

lemma parseGroup_cases:
  assumes "parseGroup cur gc = Inr (r, c', g')"
  obtains (unclosed) e cur1 gc1 where "parseExpr cur gc = Inr (e, cur1, gc1)"
      and "\<not> fst (matchChar cur1 (CHR '')''))" and "r = None" and "c' = cur1" and "g' = gc1"
    | (closed) e cur1 gc1 base where "parseExpr cur gc = Inr (e, cur1, gc1)"
      and "fst (matchChar cur1 (CHR '')''))" and "gc1 \<noteq> 2147483647"
      and "parseSuffix (GroupNode e gc1) (snd (matchChar cur1 (CHR '')''))) = Inr (base, c')"
      and "r = Some base" and "g' = gc1 + 1"
proof -
  obtain e cur1 gc1 where pe: "parseExpr cur gc = Inr (e, cur1, gc1)"
    using assms by (auto simp: parseGroup.simps [of cur gc] split: sum.splits)
  show ?thesis
  proof (cases "fst (matchChar cur1 (CHR '')''))")
    case False
    then show ?thesis using assms pe that(1) by (simp add: parseGroup.simps [of cur gc])
  next
    case True
    then show ?thesis using assms pe that(2) [OF pe True]
      by (auto simp: parseGroup.simps [of cur gc] split: sum.splits if_splits)
  qed
qed

section \<open>Group numbering\<close>

lemma numbered_widen: "numbered n g1 g2 \<Longrightarrow> g0 \<le> g1 \<Longrightarrow> g2 \<le> g3 \<Longrightarrow> numbered n g0 g3"
  unfolding numbered_def by auto

lemma numbered_leaf [simp]: "numbered (CharacterNode ch) g g'" "numbered DotNode g g'"
  "numbered (SequenceNode []) g g'"
  by (simp_all add: numbered_def)

lemma sorted_append_ranges:
  fixes xs ys :: "int list"
  assumes "sorted_wrt (<) xs" and "set xs \<subseteq> {a..<b}"
    and "sorted_wrt (<) ys" and "set ys \<subseteq> {b..<c}"
    and "a \<le> b" and "b \<le> c"
  shows "sorted_wrt (<) (xs @ ys) \<and> set (xs @ ys) \<subseteq> {a..<c}"
proof -
  have "\<forall>x\<in>set xs. \<forall>y\<in>set ys. x < y"
  proof (intro ballI)
    fix x y assume "x \<in> set xs" "y \<in> set ys"
    then have "x < b" "b \<le> y" using assms(2,4) by auto
    then show "x < y" by linarith
  qed
  moreover have "set xs \<subseteq> {a..<c}" using assms(2,6) by auto
  moreover have "set ys \<subseteq> {a..<c}" using assms(4,5) by auto
  ultimately show ?thesis using assms(1,3) by (simp add: sorted_wrt_append)
qed

lemma numbered_Or:
  "numbered l g0 g1 \<Longrightarrow> numbered r g1 g2 \<Longrightarrow> g0 \<le> g1 \<Longrightarrow> g1 \<le> g2 \<Longrightarrow> numbered (OrNode l r) g0 g2"
  unfolding numbered_def using sorted_append_ranges [of "group_order l" g0 g1 "group_order r" g2]
  by simp

lemma numbered_Seq_snoc:
  "numbered (SequenceNode cs) g0 g1 \<Longrightarrow> numbered f g1 g2 \<Longrightarrow> g0 \<le> g1 \<Longrightarrow> g1 \<le> g2
     \<Longrightarrow> numbered (SequenceNode (cs @ [f])) g0 g2"
  unfolding numbered_def
  using sorted_append_ranges [of "concat (map group_order cs)" g0 g1 "group_order f" g2]
  by simp

lemma numbered_Group:
  assumes "\<And>n. e = Some n \<Longrightarrow> numbered n g g1" and "g \<le> g1"
  shows "numbered (GroupNode e g1) g (g1 + 1)"
proof (cases e)
  case None
  then show ?thesis using assms(2) by (simp add: numbered_def)
next
  case (Some n)
  then have "numbered n g g1" using assms(1) by simp
  then show ?thesis
    unfolding numbered_def
    using sorted_append_ranges [of "group_order n" g g1 "[g1]" "g1 + 1"] assms(2) Some
    by simp
qed

lemma group_order_parseCount:
  "parseCount base cur = Inr (Some n, cur') \<Longrightarrow> group_order n = group_order base"
  by (auto simp: parseCount_def Let_def split: prod.splits if_splits sum.splits)

lemma group_order_parseIgnoreCase:
  "parseIgnoreCase base cur = (Some n, cur') \<Longrightarrow> group_order n = group_order base"
  by (auto simp: parseIgnoreCase_def Let_def split: if_splits)

lemma parseSuffix_Inr:
  "parseSuffix base cur = Inr (n, cur') \<longleftrightarrow>
     (\<exists>expanded cur1. parseCount base cur = Inr (expanded, cur1)
        \<and> n = (case fst (parseIgnoreCase (case expanded of Some m \<Rightarrow> m | None \<Rightarrow> base) cur1) of
                 Some m \<Rightarrow> m
               | None \<Rightarrow> (case expanded of Some m \<Rightarrow> m | None \<Rightarrow> base))
        \<and> cur' = snd (parseIgnoreCase (case expanded of Some m \<Rightarrow> m | None \<Rightarrow> base) cur1))"
  by (auto simp: parseSuffix_def Let_def case_prod_unfold split: sum.splits option.splits)

lemma group_order_parseSuffix:
  assumes "parseSuffix base cur = Inr (n, cur')"
  shows "group_order n = group_order base"
proof -
  obtain expanded cur1 where pc: "parseCount base cur = Inr (expanded, cur1)"
    and n: "n = (case fst (parseIgnoreCase (case expanded of Some m \<Rightarrow> m | None \<Rightarrow> base) cur1) of
                 Some m \<Rightarrow> m
               | None \<Rightarrow> (case expanded of Some m \<Rightarrow> m | None \<Rightarrow> base))"
    using assms unfolding parseSuffix_Inr by blast
  define base1 where "base1 = (case expanded of Some n \<Rightarrow> n | None \<Rightarrow> base)"
  have b1: "group_order base1 = group_order base"
    using group_order_parseCount pc by (cases expanded) (auto simp: base1_def)
  obtain expanded2 cur2 where pi: "parseIgnoreCase base1 cur1 = (expanded2, cur2)" by force
  have "n = (case expanded2 of Some n \<Rightarrow> n | None \<Rightarrow> base1)"
    using n pi by (simp add: base1_def split: option.splits)
  then have "group_order n = group_order base1"
    using group_order_parseIgnoreCase pi by (cases expanded2) auto
  then show ?thesis using b1 by simp
qed

lemma numbered_parseSuffix:
  "parseSuffix base cur = Inr (n, cur') \<Longrightarrow> numbered base g g' \<Longrightarrow> numbered n g g'"
  by (simp add: numbered_def group_order_parseSuffix)

lemma parse_numbered:
  "\<forall>r c' g'. parseExpr c1 g1 = Inr (r, c', g') \<longrightarrow>
     text_cur c' = text_cur c1 \<and> g1 \<le> g' \<and> (\<forall>n. r = Some n \<longrightarrow> numbered n g1 g')"
  "\<forall>r c' g'. parseExpr_loop l2 c2 g2 = Inr (r, c', g') \<longrightarrow>
     text_cur c' = text_cur c2 \<and> g2 \<le> g'
     \<and> (\<forall>g0 n. g0 \<le> g2 \<and> numbered l2 g0 g2 \<and> r = Some n \<longrightarrow> numbered n g0 g')"
  "\<forall>r c' g'. parseTerm c3 g3 = Inr (r, c', g') \<longrightarrow>
     text_cur c' = text_cur c3 \<and> g3 \<le> g' \<and> (\<forall>n. r = Some n \<longrightarrow> numbered n g3 g')"
  "\<forall>r c' g'. parseTerm_loop s4 c4 g4 = Inr (r, c', g') \<longrightarrow>
     text_cur c' = text_cur c4 \<and> g4 \<le> g'
     \<and> (\<forall>g0 n. g0 \<le> g4 \<and> numbered (SequenceNode s4) g0 g4 \<and> r = Some n \<longrightarrow> numbered n g0 g')"
  "\<forall>r c' g'. parseFactor c5 g5 = Inr (r, c', g') \<longrightarrow>
     text_cur c' = text_cur c5 \<and> g5 \<le> g' \<and> (\<forall>n. r = Some n \<longrightarrow> numbered n g5 g')"
  "\<forall>r c' g'. parseGroup c6 g6 = Inr (r, c', g') \<longrightarrow>
     text_cur c' = text_cur c6 \<and> g6 \<le> g' \<and> (\<forall>n. r = Some n \<longrightarrow> numbered n g6 g')"
proof (induction c1 g1 and l2 c2 g2 and c3 g3 and s4 c4 g4 and c5 g5 and c6 g6 rule: parse_induct)
  case (parseExpr cur gc)
  show ?case
  proof (intro allI impI)
    fix r c' g' assume "parseExpr cur gc = Inr (r, c', g')"
    then show "text_cur c' = text_cur cur \<and> gc \<le> g' \<and> (\<forall>n. r = Some n \<longrightarrow> numbered n gc g')"
    proof (cases rule: parseExpr_cases)
      case (empty cur1 gc1)
      have "text_cur cur1 = text_cur cur \<and> gc \<le> gc1"
        using parseExpr(1) [rule_format, OF empty(1)] by simp
      then show ?thesis by (simp add: empty(2,3,4))
    next
      case (loop left cur1 gc1)
      have t: "text_cur cur1 = text_cur cur \<and> gc \<le> gc1 \<and> numbered left gc gc1"
        using parseExpr(1) [rule_format, OF loop(1)] by simp
      have l: "text_cur c' = text_cur cur1 \<and> gc1 \<le> g'
          \<and> (\<forall>g0 n. g0 \<le> gc1 \<and> numbered left g0 gc1 \<and> r = Some n \<longrightarrow> numbered n g0 g')"
        using parseExpr(2) [OF loop(1), rule_format, OF loop(2)] .
      have "\<forall>n. r = Some n \<longrightarrow> numbered n gc g'"
      proof (intro allI impI)
        fix n assume "r = Some n"
        then show "numbered n gc g'"
          using l [THEN conjunct2, THEN conjunct2, rule_format, of gc n] t by simp
      qed
      then show ?thesis using t l by simp
    qed
  qed
next
  case (parseExpr_loop left cur gc)
  show ?case
  proof (intro allI impI)
    fix r c' g' assume "parseExpr_loop left cur gc = Inr (r, c', g')"
    then show "text_cur c' = text_cur cur \<and> gc \<le> g'
       \<and> (\<forall>g0 n. g0 \<le> gc \<and> numbered left g0 gc \<and> r = Some n \<longrightarrow> numbered n g0 g')"
    proof (cases rule: parseExpr_loop_cases)
      case stop
      show ?thesis by (simp add: stop(2,3,4))
    next
      case (empty cur1 gc1)
      have "text_cur cur1 = text_cur cur \<and> gc \<le> gc1"
        using parseExpr_loop(1) [OF empty(1), rule_format, OF empty(2)] by simp
      then show ?thesis by (simp add: empty(3,4,5))
    next
      case (loop right cur1 gc1)
      have t: "text_cur cur1 = text_cur cur \<and> gc \<le> gc1 \<and> numbered right gc gc1"
        using parseExpr_loop(1) [OF loop(1), rule_format, OF loop(2)] by simp
      have l: "text_cur c' = text_cur cur1 \<and> gc1 \<le> g'
          \<and> (\<forall>g0 n. g0 \<le> gc1 \<and> numbered (OrNode left right) g0 gc1 \<and> r = Some n \<longrightarrow> numbered n g0 g')"
        using parseExpr_loop(2) [OF loop(1) loop(2), rule_format, OF loop(3)] .
      have "\<forall>g0 n. g0 \<le> gc \<and> numbered left g0 gc \<and> r = Some n \<longrightarrow> numbered n g0 g'"
      proof (intro allI impI)
        fix g0 n assume a: "g0 \<le> gc \<and> numbered left g0 gc \<and> r = Some n"
        then have "numbered (OrNode left right) g0 gc1"
          using t numbered_Or [of left g0 gc right gc1] by simp
        moreover have "g0 \<le> gc1" using a t by linarith
        ultimately show "numbered n g0 g'"
          using l [THEN conjunct2, THEN conjunct2, rule_format, of g0 n] a by simp
      qed
      then show ?thesis using t l by simp
    qed
  qed
next
  case (parseTerm cur gc)
  show ?case
  proof (intro allI impI)
    fix r c' g' assume "parseTerm cur gc = Inr (r, c', g')"
    then have "parseTerm_loop [] cur gc = Inr (r, c', g')" by (simp add: parseTerm.simps)
    then have l: "text_cur c' = text_cur cur \<and> gc \<le> g'
       \<and> (\<forall>g0 n. g0 \<le> gc \<and> numbered (SequenceNode []) g0 gc \<and> r = Some n \<longrightarrow> numbered n g0 g')"
      using parseTerm [rule_format] by blast
    have "\<forall>n. r = Some n \<longrightarrow> numbered n gc g'"
    proof (intro allI impI)
      fix n assume "r = Some n"
      then show "numbered n gc g'"
        using l [THEN conjunct2, THEN conjunct2, rule_format, of gc n] by simp
    qed
    then show "text_cur c' = text_cur cur \<and> gc \<le> g' \<and> (\<forall>n. r = Some n \<longrightarrow> numbered n gc g')"
      using l by simp
  qed
next
  case (parseTerm_loop children cur gc)
  show ?case
  proof (intro allI impI)
    fix r c' g' assume "parseTerm_loop children cur gc = Inr (r, c', g')"
    then show "text_cur c' = text_cur cur \<and> gc \<le> g'
       \<and> (\<forall>g0 n. g0 \<le> gc \<and> numbered (SequenceNode children) g0 gc \<and> r = Some n \<longrightarrow> numbered n g0 g')"
    proof (cases rule: parseTerm_loop_cases)
      case (stop cur1 gc1)
      have t: "text_cur cur1 = text_cur cur \<and> gc \<le> gc1"
        using parseTerm_loop(1) [rule_format, OF stop(1)] by simp
      have "\<forall>g0 n. g0 \<le> gc \<and> numbered (SequenceNode children) g0 gc \<and> r = Some n \<longrightarrow> numbered n g0 g'"
      proof (intro allI impI)
        fix g0 n assume a: "g0 \<le> gc \<and> numbered (SequenceNode children) g0 gc \<and> r = Some n"
        then have "n = SequenceNode children" using stop(2) by (simp split: if_splits)
        then show "numbered n g0 g'"
          using a t stop(4) numbered_widen [of "SequenceNode children" g0 gc g0 gc1] by simp
      qed
      then show ?thesis using t by (simp add: stop(3,4))
    next
      case (loop f cur1 gc1)
      have t: "text_cur cur1 = text_cur cur \<and> gc \<le> gc1 \<and> numbered f gc gc1"
        using parseTerm_loop(1) [rule_format, OF loop(1)] by simp
      have l: "text_cur c' = text_cur cur1 \<and> gc1 \<le> g'
          \<and> (\<forall>g0 n. g0 \<le> gc1 \<and> numbered (SequenceNode (children @ [f])) g0 gc1 \<and> r = Some n
                \<longrightarrow> numbered n g0 g')"
        using parseTerm_loop(2) [OF loop(1), rule_format, OF loop(2)] .
      have "\<forall>g0 n. g0 \<le> gc \<and> numbered (SequenceNode children) g0 gc \<and> r = Some n \<longrightarrow> numbered n g0 g'"
      proof (intro allI impI)
        fix g0 n assume a: "g0 \<le> gc \<and> numbered (SequenceNode children) g0 gc \<and> r = Some n"
        then have "numbered (SequenceNode (children @ [f])) g0 gc1"
          using t numbered_Seq_snoc [of children g0 gc f gc1] by simp
        moreover have "g0 \<le> gc1" using a t by linarith
        ultimately show "numbered n g0 g'"
          using l [THEN conjunct2, THEN conjunct2, rule_format, of g0 n] a by simp
      qed
      then show ?thesis using t l by simp
    qed
  qed
next
  case (parseFactor cur gc)
  show ?case
  proof (intro allI impI)
    fix r c' g' assume "parseFactor cur gc = Inr (r, c', g')"
    then show "text_cur c' = text_cur cur \<and> gc \<le> g' \<and> (\<forall>n. r = Some n \<longrightarrow> numbered n gc g')"
    proof (cases rule: parseFactor_cases)
      case group
      show ?thesis
        using parseFactor [OF group(1), rule_format, OF group(2)] text_cur_matchChar [of cur "CHR ''(''"]
        by simp
    next
      case (dot base)
      show ?thesis
        using text_cur_parseSuffix [OF dot(4)] numbered_parseSuffix [OF dot(4), of gc gc]
        by (simp add: dot(5,6))
    next
      case (char base)
      show ?thesis
        using text_cur_parseSuffix [OF char(5)] numbered_parseSuffix [OF char(5), of gc gc]
        by (simp add: char(6,7))
    next
      case none
      show ?thesis by (simp add: none(3,4,5))
    qed
  qed
next
  case (parseGroup cur gc)
  show ?case
  proof (intro allI impI)
    fix r c' g' assume "parseGroup cur gc = Inr (r, c', g')"
    then show "text_cur c' = text_cur cur \<and> gc \<le> g' \<and> (\<forall>n. r = Some n \<longrightarrow> numbered n gc g')"
    proof (cases rule: parseGroup_cases)
      case (unclosed e cur1 gc1)
      show ?thesis using parseGroup [rule_format, OF unclosed(1)] by (simp add: unclosed(3,4,5))
    next
      case (closed e cur1 gc1 base)
      have t: "text_cur cur1 = text_cur cur \<and> gc \<le> gc1 \<and> (\<forall>n. e = Some n \<longrightarrow> numbered n gc gc1)"
        using parseGroup [rule_format, OF closed(1)] .
      then have "numbered (GroupNode e gc1) gc (gc1 + 1)" by (intro numbered_Group) auto
      then have "numbered base gc (gc1 + 1)" using numbered_parseSuffix [OF closed(4)] by simp
      then show ?thesis
        using t text_cur_parseSuffix [OF closed(4)] text_cur_matchChar [of cur1 "CHR '')''"]
        by (simp add: closed(5,6))
    qed
  qed
qed

lemma sorted_wrt_concat_elem:
  "sorted_wrt P (concat xss) \<Longrightarrow> xs \<in> set xss \<Longrightarrow> sorted_wrt P xs"
  by (induction xss) (auto simp: sorted_wrt_append)

lemma sorted_nested_lower: "sorted_wrt (<) (group_order n) \<Longrightarrow> nested_lower n"
proof (induction n)
  case (SequenceNode children)
  show ?case
    unfolding nested_lower.simps
  proof
    fix c assume c: "c \<in> set children"
    then have "sorted_wrt (<) (group_order c)"
      using SequenceNode.prems sorted_wrt_concat_elem [of "(<)" "map group_order children" "group_order c"]
      by simp
    then show "nested_lower c" using SequenceNode.IH c by blast
  qed
next
  case (OrNode lhs rhs)
  then show ?case by (simp add: sorted_wrt_append)
next
  case (GroupNode expr groupIndex)
  show ?case
  proof (cases expr)
    case None
    then show ?thesis by simp
  next
    case (Some e)
    then have "sorted_wrt (<) (group_order e)" and "\<forall>j \<in> set (group_order e). j < groupIndex"
      using GroupNode.prems by (simp_all add: sorted_wrt_append)
    then show ?thesis using GroupNode.IH Some by simp
  qed
qed simp_all

text \<open>
  Claim C1. In every tree that \<^verbatim>\<open>parsePattern\<close> returns, the group indices increase strictly
  in closing order and come from the counter values of this compilation (from 1 in the
  first compilation of a process), so every group has an index above all groups nested in
  it. The index is taken when the closing parenthesis has been matched: \<^verbatim>\<open>parseGroup\<close>
  builds the group with the counter as the inner expression left it and then increments
  it. For \<open>((a)b)\<close> the inner group is 1 and spans \<open>a\<close>, the outer group is 2 and spans
  \<open>ab\<close>.
\<close>

theorem closing_order_numbering:
  "(parsePattern p d g = Inr (Some ast, d', g') \<longrightarrow>
      sorted_wrt (<) (group_order ast) \<and> set (group_order ast) \<subseteq> {g..<g'} \<and> nested_lower ast)
   \<and> (parseExpr cur g = Inr (e, cur1, g1) \<and> fst (matchChar cur1 (CHR '')'')) \<and> g1 \<noteq> 2147483647
        \<and> parseSuffix (GroupNode e g1) (snd (matchChar cur1 (CHR '')''))) = Inr (base, cur2)
      \<longrightarrow> parseGroup cur g = Inr (Some base, cur2, g1 + 1))
   \<and> parsePattern ''((a)b)'' 0 1
       = Inr (Some (SequenceNode
            [GroupNode (Some (SequenceNode
               [GroupNode (Some (SequenceNode [CharacterNode CHR ''a''])) 1,
                CharacterNode CHR ''b''])) 2]), 0, 3)
   \<and> findMatch (SequenceNode
            [GroupNode (Some (SequenceNode
               [GroupNode (Some (SequenceNode [CharacterNode CHR ''a''])) 1,
                CharacterNode CHR ''b''])) 2]) n ''ab'' []
       = Inr (Some 0, [Some \<lparr>startIndex = 0, endIndex = 2, valid = True\<rparr>,
                       Some \<lparr>startIndex = 0, endIndex = 1, valid = True\<rparr>,
                       Some \<lparr>startIndex = 0, endIndex = 2, valid = True\<rparr>])"
proof (intro conjI impI)
  assume a: "parsePattern p d g = Inr (Some ast, d', g')"
  then obtain cur where "parseExpr \<lparr>text_cur = p, pos = 0\<rparr> g = Inr (Some ast, cur, g')"
    by (auto simp: parsePattern_def split: sum.splits)
  then have "numbered ast g g'" using parse_numbered(1) by blast
  then have s: "sorted_wrt (<) (group_order ast)" and r: "set (group_order ast) \<subseteq> {g..<g'}"
    by (simp_all add: numbered_def)
  show "sorted_wrt (<) (group_order ast)" by (rule s)
  show "set (group_order ast) \<subseteq> {g..<g'}" by (rule r)
  show "nested_lower ast" using s by (rule sorted_nested_lower)
next
  assume "parseExpr cur g = Inr (e, cur1, g1) \<and> fst (matchChar cur1 (CHR '')'')) \<and> g1 \<noteq> 2147483647
        \<and> parseSuffix (GroupNode e g1) (snd (matchChar cur1 (CHR '')''))) = Inr (base, cur2)"
  then show "parseGroup cur g = Inr (Some base, cur2, g1 + 1)"
    by (simp add: parseGroup.simps [of cur g])
next
  show "parsePattern ''((a)b)'' 0 1
       = Inr (Some (SequenceNode
            [GroupNode (Some (SequenceNode
               [GroupNode (Some (SequenceNode [CharacterNode CHR ''a''])) 1,
                CharacterNode CHR ''b''])) 2]), 0, 3)"
    by code_simp
next
  show "findMatch (SequenceNode
            [GroupNode (Some (SequenceNode
               [GroupNode (Some (SequenceNode [CharacterNode CHR ''a''])) 1,
                CharacterNode CHR ''b''])) 2]) n ''ab'' []
       = Inr (Some 0, [Some \<lparr>startIndex = 0, endIndex = 2, valid = True\<rparr>,
                       Some \<lparr>startIndex = 0, endIndex = 1, valid = True\<rparr>,
                       Some \<lparr>startIndex = 0, endIndex = 2, valid = True\<rparr>])"
    by (simp add: findMatch_def findMatch_from.simps attempt_def resize_def atEnd_def
        currentChar_def store_capture_def)
qed

theorem closing_order_numbering_witness:
  "parsePattern ''(a)((b)c)'' 0 1
     = Inr (Some (SequenceNode
          [GroupNode (Some (SequenceNode [CharacterNode CHR ''a''])) 1,
           GroupNode (Some (SequenceNode
             [GroupNode (Some (SequenceNode [CharacterNode CHR ''b''])) 2,
              CharacterNode CHR ''c''])) 3]), 0, 4)
   \<and> sorted_wrt (<) (group_order (SequenceNode
          [GroupNode (Some (SequenceNode [CharacterNode CHR ''a''])) 1,
           GroupNode (Some (SequenceNode
             [GroupNode (Some (SequenceNode [CharacterNode CHR ''b''])) 2,
              CharacterNode CHR ''c''])) 3]))
   \<and> group_order (SequenceNode
          [GroupNode (Some (SequenceNode [CharacterNode CHR ''a''])) 1,
           GroupNode (Some (SequenceNode
             [GroupNode (Some (SequenceNode [CharacterNode CHR ''b''])) 2,
              CharacterNode CHR ''c''])) 3]) = [1, 2, 3]
   \<and> parseGroup \<lparr>text_cur = ''(a)'', pos = 1\<rparr> 1
     = Inr (Some (GroupNode (Some (SequenceNode [CharacterNode CHR ''a''])) 1),
            \<lparr>text_cur = ''(a)'', pos = 3\<rparr>, 2)"
proof -
  let ?ast = "SequenceNode
          [GroupNode (Some (SequenceNode [CharacterNode CHR ''a''])) 1,
           GroupNode (Some (SequenceNode
             [GroupNode (Some (SequenceNode [CharacterNode CHR ''b''])) 2,
              CharacterNode CHR ''c''])) 3]"
  have p: "parsePattern ''(a)((b)c)'' 0 1 = Inr (Some ?ast, 0, 4)"
    by code_simp
  have e: "parseExpr \<lparr>text_cur = ''(a)'', pos = 1\<rparr> 1
      = Inr (Some (SequenceNode [CharacterNode CHR ''a'']), \<lparr>text_cur = ''(a)'', pos = 2\<rparr>, 1)"
    by code_simp
  have m: "matchChar \<lparr>text_cur = ''(a)'', pos = 2\<rparr> (CHR '')'') = (True, \<lparr>text_cur = ''(a)'', pos = 3\<rparr>)"
    by code_simp
  have s: "parseSuffix (GroupNode (Some (SequenceNode [CharacterNode CHR ''a''])) 1)
      \<lparr>text_cur = ''(a)'', pos = 3\<rparr>
      = Inr (GroupNode (Some (SequenceNode [CharacterNode CHR ''a''])) 1, \<lparr>text_cur = ''(a)'', pos = 3\<rparr>)"
    by code_simp
  note t = closing_order_numbering [where p = "''(a)((b)c)''" and d = 0 and g = 1 and ast = ?ast
      and d' = 0 and g' = 4 and cur = "\<lparr>text_cur = ''(a)'', pos = 1\<rparr>"
      and e = "Some (SequenceNode [CharacterNode CHR ''a''])"
      and ?cur1.0 = "\<lparr>text_cur = ''(a)'', pos = 2\<rparr>" and ?g1.0 = 1
      and base = "GroupNode (Some (SequenceNode [CharacterNode CHR ''a''])) 1"
      and ?cur2.0 = "\<lparr>text_cur = ''(a)'', pos = 3\<rparr>"]
  have "sorted_wrt (<) (group_order ?ast)" using t p by blast
  moreover have "parseGroup \<lparr>text_cur = ''(a)'', pos = 1\<rparr> 1
     = Inr (Some (GroupNode (Some (SequenceNode [CharacterNode CHR ''a''])) 1),
            \<lparr>text_cur = ''(a)'', pos = 3\<rparr>, 2)"
    using t e m s by simp
  moreover have "group_order ?ast = [1, 2, 3]" by simp
  ultimately show ?thesis using p by blast
qed

section \<open>The output directive\<close>

text \<open>
  Claim C9. The directive block of \<^verbatim>\<open>parsePattern\<close> changes the caller's index only when a
  well-formed directive stands at the cursor; then the cursor moves behind it and the index
  is its number (or \<^verbatim>\<open>std::stoi\<close> throws when the number does not fit an \<^verbatim>\<open>int\<close>). In
  every other case the cursor and the index are returned unchanged. So when the expression
  has parsed, the compilation succeeds with the index 0 that \<^verbatim>\<open>main\<close> passes in unless a
  well-formed directive follows the expression: \<^verbatim>\<open>a\O{}\<close> and \<^verbatim>\<open>a\O{3\<close> compile with index
  0, and \<^verbatim>\<open>(a)(b)\O{1}\<close> on \<open>ab\<close> prints \<open>a\<close>.
\<close>

theorem output_directive_optional:
  "parseOutput cur d =
     (case output_directive (drop (pos cur) (text_cur cur)) of
        None \<Rightarrow> Inr (cur, d)
      | Some ds \<Rightarrow>
          (case stoi ds of
             Inl e \<Rightarrow> Inl e
           | Inr n \<Rightarrow> Inr (cur\<lparr>pos := pos cur + length ds + 4\<rparr>, n)))
   \<and> (parseExpr \<lparr>text_cur = p, pos = 0\<rparr> g = Inr (Some ast, cur', g') \<longrightarrow>
        parsePattern p 0 g =
          (case output_directive (drop (pos cur') p) of
             None \<Rightarrow> Inr (Some ast, 0, g')
           | Some ds \<Rightarrow>
               (case stoi ds of
                  Inl e \<Rightarrow> Inl e
                | Inr n \<Rightarrow> Inr (Some ast, n, g'))))
   \<and> parsePattern (''a'' @ [CHR 0x5C] @ ''O{}'') 0 1
        = Inr (Some (SequenceNode [CharacterNode CHR ''a'']), 0, 1)
   \<and> parsePattern (''a'' @ [CHR 0x5C] @ ''O{3'') 0 1
        = Inr (Some (SequenceNode [CharacterNode CHR ''a'']), 0, 1)
   \<and> parsePattern (''(a)(b)'' @ [CHR 0x5C] @ ''O{1}'') 0 1
        = Inr (Some (SequenceNode
             [GroupNode (Some (SequenceNode [CharacterNode CHR ''a''])) 1,
              GroupNode (Some (SequenceNode [CharacterNode CHR ''b''])) 2]), 1, 3)
   \<and> main (''(a)(b)'' @ [CHR 0x5C] @ ''O{1}'') ''ab'' n = Inr (EXIT_SUCCESS, Some ''a'')"
proof (intro conjI impI)
  show "parseOutput cur d =
     (case output_directive (drop (pos cur) (text_cur cur)) of
        None \<Rightarrow> Inr (cur, d)
      | Some ds \<Rightarrow>
          (case stoi ds of
             Inl e \<Rightarrow> Inl e
           | Inr n \<Rightarrow> Inr (cur\<lparr>pos := pos cur + length ds + 4\<rparr>, n)))"
    by (rule parseOutput_directive)
next
  assume a: "parseExpr \<lparr>text_cur = p, pos = 0\<rparr> g = Inr (Some ast, cur', g')"
  then have "text_cur cur' = p" using parse_numbered(1) [rule_format, OF a] by simp
  then show "parsePattern p 0 g =
          (case output_directive (drop (pos cur') p) of
             None \<Rightarrow> Inr (Some ast, 0, g')
           | Some ds \<Rightarrow>
               (case stoi ds of
                  Inl e \<Rightarrow> Inl e
                | Inr n \<Rightarrow> Inr (Some ast, n, g')))"
    using a by (simp add: parsePattern_def parseOutput_directive split: option.splits sum.splits)
next
  show "parsePattern (''a'' @ [CHR 0x5C] @ ''O{}'') 0 1
        = Inr (Some (SequenceNode [CharacterNode CHR ''a'']), 0, 1)"
    by code_simp
next
  show "parsePattern (''a'' @ [CHR 0x5C] @ ''O{3'') 0 1
        = Inr (Some (SequenceNode [CharacterNode CHR ''a'']), 0, 1)"
    by code_simp
next
  have p: "parsePattern (''(a)(b)'' @ [CHR 0x5C] @ ''O{1}'') 0 1
        = Inr (Some (SequenceNode
             [GroupNode (Some (SequenceNode [CharacterNode CHR ''a''])) 1,
              GroupNode (Some (SequenceNode [CharacterNode CHR ''b''])) 2]), 1, 3)"
    by code_simp
  show "parsePattern (''(a)(b)'' @ [CHR 0x5C] @ ''O{1}'') 0 1
        = Inr (Some (SequenceNode
             [GroupNode (Some (SequenceNode [CharacterNode CHR ''a''])) 1,
              GroupNode (Some (SequenceNode [CharacterNode CHR ''b''])) 2]), 1, 3)"
    by (rule p)
  have f: "findMatch (SequenceNode
             [GroupNode (Some (SequenceNode [CharacterNode CHR ''a''])) 1,
              GroupNode (Some (SequenceNode [CharacterNode CHR ''b''])) 2]) n ''ab'' []
      = Inr (Some 0, [Some \<lparr>startIndex = 0, endIndex = 2, valid = True\<rparr>,
                      Some \<lparr>startIndex = 0, endIndex = 1, valid = True\<rparr>,
                      Some \<lparr>startIndex = 1, endIndex = 2, valid = True\<rparr>])"
    by (simp add: findMatch_def findMatch_from.simps attempt_def resize_def atEnd_def
        currentChar_def store_capture_def)
  show "main (''(a)(b)'' @ [CHR 0x5C] @ ''O{1}'') ''ab'' n = Inr (EXIT_SUCCESS, Some ''a'')"
    unfolding main_def p using f by (simp add: printed_def)
qed

theorem output_directive_optional_witness:
  "parseExpr \<lparr>text_cur = ''ab'' @ [CHR 0x5C] @ ''O{12'', pos = 0\<rparr> 1
     = Inr (Some (SequenceNode [CharacterNode CHR ''a'', CharacterNode CHR ''b'']),
            \<lparr>text_cur = ''ab'' @ [CHR 0x5C] @ ''O{12'', pos = 2\<rparr>, 1)
   \<and> output_directive ([CHR 0x5C] @ ''O{12'') = None
   \<and> parsePattern (''ab'' @ [CHR 0x5C] @ ''O{12'') 0 1
     = Inr (Some (SequenceNode [CharacterNode CHR ''a'', CharacterNode CHR ''b'']), 0, 1)
   \<and> parseExpr \<lparr>text_cur = ''ab'' @ [CHR 0x5C] @ ''o{12}'', pos = 0\<rparr> 1
     = Inr (Some (SequenceNode [CharacterNode CHR ''a'', CharacterNode CHR ''b'']),
            \<lparr>text_cur = ''ab'' @ [CHR 0x5C] @ ''o{12}'', pos = 2\<rparr>, 1)
   \<and> output_directive ([CHR 0x5C] @ ''o{12}'') = Some ''12''
   \<and> parsePattern (''ab'' @ [CHR 0x5C] @ ''o{12}'') 0 1
     = Inr (Some (SequenceNode [CharacterNode CHR ''a'', CharacterNode CHR ''b'']), 12, 1)"
proof -
  let ?ast = "SequenceNode [CharacterNode CHR ''a'', CharacterNode CHR ''b'']"
  have e1: "parseExpr \<lparr>text_cur = ''ab'' @ [CHR 0x5C] @ ''O{12'', pos = 0\<rparr> 1
     = Inr (Some ?ast, \<lparr>text_cur = ''ab'' @ [CHR 0x5C] @ ''O{12'', pos = 2\<rparr>, 1)"
    by code_simp
  have o1: "output_directive ([CHR 0x5C] @ ''O{12'') = None"
    by (simp add: output_directive_def isdigit_def)
  have e2: "parseExpr \<lparr>text_cur = ''ab'' @ [CHR 0x5C] @ ''o{12}'', pos = 0\<rparr> 1
     = Inr (Some ?ast, \<lparr>text_cur = ''ab'' @ [CHR 0x5C] @ ''o{12}'', pos = 2\<rparr>, 1)"
    by code_simp
  have o2: "output_directive ([CHR 0x5C] @ ''o{12}'') = Some ''12''"
    by (simp add: output_directive_def isdigit_def)
  have s: "stoi ''12'' = Inr 12"
    by (simp add: stoi_def digit_value_def)
  have p1: "parsePattern (''ab'' @ [CHR 0x5C] @ ''O{12'') 0 1 = Inr (Some ?ast, 0, 1)"
    using output_directive_optional [where p = "''ab'' @ [CHR 0x5C] @ ''O{12''" and g = 1
        and ast = ?ast and cur' = "\<lparr>text_cur = ''ab'' @ [CHR 0x5C] @ ''O{12'', pos = 2\<rparr>" and g' = 1,
        THEN conjunct2, THEN conjunct1, rule_format, OF e1] o1
    by simp
  have p2: "parsePattern (''ab'' @ [CHR 0x5C] @ ''o{12}'') 0 1 = Inr (Some ?ast, 12, 1)"
    using output_directive_optional [where p = "''ab'' @ [CHR 0x5C] @ ''o{12}''" and g = 1
        and ast = ?ast and cur' = "\<lparr>text_cur = ''ab'' @ [CHR 0x5C] @ ''o{12}'', pos = 2\<rparr>" and g' = 1,
        THEN conjunct2, THEN conjunct1, rule_format, OF e2] o2 s
    by simp
  show ?thesis using e1 o1 p1 e2 o2 p2 by blast
qed

section \<open>Patterns that fail to compile\<close>

lemma drop_cursor_Cons:
  assumes "drop (pos cur) (text_cur cur) = x # r"
  shows "\<not> end_cur cur" and "current cur = x"
    and "drop (pos (advance cur)) (text_cur (advance cur)) = r"
proof -
  show e: "\<not> end_cur cur" using assms by (auto simp: end_cur_def)
  from drop_cursor [OF e] assms show "current cur = x"
    and "drop (pos (advance cur)) (text_cur (advance cur)) = r" by simp_all
qed

lemma drop_cursor_Nil: "drop (pos cur) (text_cur cur) = [] \<longleftrightarrow> end_cur cur"
  by (simp add: end_cur_def)

lemma no_factor_cursor:
  assumes "no_factor (drop (pos cur) (text_cur cur))"
  shows "end_cur cur \<or> (current cur \<in> set (''+*){}'' @ [CHR 0x5C]))"
proof (cases "drop (pos cur) (text_cur cur)")
  case Nil
  then have "end_cur cur" by (simp add: end_cur_def)
  then show ?thesis by simp
next
  case (Cons x r)
  then show ?thesis using assms drop_cursor_Cons(2) [OF Cons] by (simp add: no_factor_def)
qed

lemma parseFactor_no_factor:
  assumes "end_cur cur \<or> (current cur \<in> set (''+*){}'' @ [CHR 0x5C]))"
  shows "parseFactor cur gc = Inr (None, cur, gc)"
proof -
  have "\<not> fst (matchChar cur (CHR ''(''))" using assms by (auto simp: matchChar_def)
  moreover have "end_cur cur \<or> current cur \<noteq> CHR ''.'' \<and> special (current cur)"
    using assms by (auto simp: special_def)
  ultimately show ?thesis
    by (cases "end_cur cur") (auto simp: parseFactor.simps [of cur gc])
qed

lemma parseFactor_unclosed:
  assumes "fst (matchChar cur (CHR ''(''))"
    and "parseExpr (snd (matchChar cur (CHR ''(''))) gc = Inr (e, c', g')"
    and "\<not> fst (matchChar c' (CHR '')''))"
  shows "parseFactor cur gc = Inr (None, c', g')"
proof -
  have "parseGroup (snd (matchChar cur (CHR ''(''))) gc = Inr (None, c', g')"
    using assms(2,3) by (simp add: parseGroup.simps [of "snd (matchChar cur (CHR ''(''))" gc])
  then show ?thesis using assms(1) by (simp add: parseFactor.simps [of cur gc])
qed

lemma parseTerm_empty:
  assumes "parseFactor cur gc = Inr (None, c', g')"
  shows "parseTerm cur gc = Inr (None, c', g')"
  using assms by (simp add: parseTerm.simps [of cur gc] parseTerm_loop.simps [of "[]" cur gc])

lemma term_start_Suc:
  assumes "term_start (Suc k) cur gc = Some (ct, gt)"
  obtains t cur1 gc1 where "parseTerm cur gc = Inr (Some t, cur1, gc1)"
    and "fst (matchChar cur1 (CHR ''+''))"
    and "term_start k (snd (matchChar cur1 (CHR ''+''))) gc1 = Some (ct, gt)"
  using assms by (auto split: sum.splits option.splits if_splits)

lemma text_cur_term_start:
  "term_start k cur gc = Some (ct, gt) \<Longrightarrow> text_cur ct = text_cur cur"
proof (induction k arbitrary: cur gc)
  case 0
  then show ?case by simp
next
  case (Suc k)
  from Suc.prems obtain t cur1 gc1 where pt: "parseTerm cur gc = Inr (Some t, cur1, gc1)"
    and ts: "term_start k (snd (matchChar cur1 (CHR ''+''))) gc1 = Some (ct, gt)"
    by (rule term_start_Suc)
  have "text_cur cur1 = text_cur cur" using parse_numbered(3) [rule_format, OF pt] by simp
  then show ?case using Suc.IH [OF ts] by simp
qed

lemma parseExpr_loop_empty_term:
  assumes "fst (matchChar cur (CHR ''+''))"
    and "term_start k (snd (matchChar cur (CHR ''+''))) gc = Some (ct, gt)"
    and "parseFactor ct gt = Inr (None, c', g')"
  shows "parseExpr_loop left cur gc = Inr (None, c', g')"
  using assms(1,2)
proof (induction k arbitrary: left cur gc)
  case 0
  then have "parseTerm (snd (matchChar cur (CHR ''+''))) gc = Inr (None, c', g')"
    using parseTerm_empty [OF assms(3)] by simp
  then show ?case using 0(1) by (simp add: parseExpr_loop.simps [of left cur gc])
next
  case (Suc k)
  from Suc.prems(2) obtain t cur1 gc1
    where pt: "parseTerm (snd (matchChar cur (CHR ''+''))) gc = Inr (Some t, cur1, gc1)"
      and m: "fst (matchChar cur1 (CHR ''+''))"
      and ts: "term_start k (snd (matchChar cur1 (CHR ''+''))) gc1 = Some (ct, gt)"
    by (rule term_start_Suc)
  have "parseExpr_loop left cur gc = parseExpr_loop (OrNode left t) cur1 gc1"
    using Suc.prems(1) pt by (simp add: parseExpr_loop.simps [of left cur gc])
  then show ?case using Suc.IH [OF m ts] by simp
qed

lemma parseExpr_empty_term:
  assumes "term_start k cur gc = Some (ct, gt)"
    and "parseFactor ct gt = Inr (None, c', g')"
  shows "parseExpr cur gc = Inr (None, c', g')"
proof (cases k)
  case 0
  then have "parseTerm cur gc = Inr (None, c', g')"
    using assms parseTerm_empty [OF assms(2)] by simp
  then show ?thesis by (simp add: parseExpr.simps [of cur gc])
next
  case (Suc j)
  from assms(1) obtain t cur1 gc1 where pt: "parseTerm cur gc = Inr (Some t, cur1, gc1)"
    and m: "fst (matchChar cur1 (CHR ''+''))"
    and ts: "term_start j (snd (matchChar cur1 (CHR ''+''))) gc1 = Some (ct, gt)"
    unfolding Suc by (rule term_start_Suc)
  have "parseExpr cur gc = parseExpr_loop t cur1 gc1"
    using pt by (simp add: parseExpr.simps [of cur gc])
  then show ?thesis using parseExpr_loop_empty_term [OF m ts assms(2)] by simp
qed

lemma parsePattern_directive:
  assumes "parseExpr \<lparr>text_cur = p, pos = 0\<rparr> g = Inr (r, cur, g')"
  shows "parsePattern p d g =
           (case output_directive (drop (pos cur) p) of
              None \<Rightarrow> Inr (r, d, g')
            | Some ds \<Rightarrow> (case stoi ds of Inl e \<Rightarrow> Inl e | Inr n \<Rightarrow> Inr (r, n, g')))"
proof -
  have "text_cur cur = p" using parse_numbered(1) [rule_format, OF assms] by simp
  then show ?thesis
    using assms by (simp add: parsePattern_def parseOutput_directive split: option.splits sum.splits)
qed

text \<open>
  Claim C3, amended. A term of the top level of a pattern is empty when no factor is
  returned where it starts: the pattern ends there, or one of \<open>+ * ) { }\<close> or a backslash
  stands there (after a \<open>+\<close> this is a dangling alternation operator), or a parenthesis
  opens there and no \<open>)\<close> stands where the expression after it stops (an unmatched
  parenthesis, as in \<open>(a\<close>). Whenever a term of the top level is empty, the first one or the
  one after any number of terms that parse and their \<open>+\<close>, \<^verbatim>\<open>parsePattern\<close> returns no tree;
  the directive block still runs at the place where the term starts or the unmatched
  group stops, so a well-formed directive there sets the output group, and one whose
  number does not fit an \<^verbatim>\<open>int\<close> throws. \<^verbatim>\<open>main\<close> exits with failure when no tree is
  returned. A directive that is not well formed, such as \<open>\O{}\<close>, does not make the
  compilation fail: the tree of the expression is returned and the output group kept.
\<close>

theorem compile_failures:
  "(term_start k \<lparr>text_cur = p, pos = 0\<rparr> g = Some (ct, gt) \<and> parseFactor ct gt = Inr (None, c', g')
      \<longrightarrow> parsePattern p d g =
            (case output_directive (drop (pos c') p) of
               None \<Rightarrow> Inr (None, d, g')
             | Some ds \<Rightarrow> (case stoi ds of Inl e \<Rightarrow> Inl e | Inr n \<Rightarrow> Inr (None, n, g'))))
   \<and> (no_factor (drop (pos cur) (text_cur cur)) \<longrightarrow> parseFactor cur gc = Inr (None, cur, gc))
   \<and> (fst (matchChar cur (CHR ''('')) \<and> parseExpr (snd (matchChar cur (CHR ''(''))) gc = Inr (e, cur', gc')
        \<and> \<not> fst (matchChar cur' (CHR '')''))
      \<longrightarrow> parseFactor cur gc = Inr (None, cur', gc'))
   \<and> (parsePattern p 0 1 = Inr (None, d', g1) \<longrightarrow> main p inp n = Inr (EXIT_FAILURE, None))
   \<and> (parseExpr \<lparr>text_cur = p, pos = 0\<rparr> g = Inr (Some ast, c2, g2) \<and> output_directive (drop (pos c2) p) = None
      \<longrightarrow> parsePattern p d g = Inr (Some ast, d, g2))
   \<and> parsePattern ''(a'' 0 1 = Inr (None, 0, 1)
   \<and> main ''(a'' inp n = Inr (EXIT_FAILURE, None)"
proof (intro conjI impI)
  assume a: "term_start k \<lparr>text_cur = p, pos = 0\<rparr> g = Some (ct, gt) \<and> parseFactor ct gt = Inr (None, c', g')"
  then have ts: "term_start k \<lparr>text_cur = p, pos = 0\<rparr> g = Some (ct, gt)"
    and pf: "parseFactor ct gt = Inr (None, c', g')" by blast+
  show "parsePattern p d g =
            (case output_directive (drop (pos c') p) of
               None \<Rightarrow> Inr (None, d, g')
             | Some ds \<Rightarrow> (case stoi ds of Inl e \<Rightarrow> Inl e | Inr n \<Rightarrow> Inr (None, n, g')))"
    by (rule parsePattern_directive [OF parseExpr_empty_term [OF ts pf]])
next
  assume "no_factor (drop (pos cur) (text_cur cur))"
  then show "parseFactor cur gc = Inr (None, cur, gc)"
    by (intro parseFactor_no_factor no_factor_cursor)
next
  assume a: "fst (matchChar cur (CHR ''('')) \<and> parseExpr (snd (matchChar cur (CHR ''(''))) gc = Inr (e, cur', gc')
        \<and> \<not> fst (matchChar cur' (CHR '')''))"
  then have a1: "fst (matchChar cur (CHR ''(''))"
    and a2: "parseExpr (snd (matchChar cur (CHR ''(''))) gc = Inr (e, cur', gc')"
    and a3: "\<not> fst (matchChar cur' (CHR '')''))" by blast+
  show "parseFactor cur gc = Inr (None, cur', gc')"
    by (rule parseFactor_unclosed [OF a1 a2 a3])
next
  assume "parsePattern p 0 1 = Inr (None, d', g1)"
  then show "main p inp n = Inr (EXIT_FAILURE, None)" by (simp add: main_def)
next
  assume a: "parseExpr \<lparr>text_cur = p, pos = 0\<rparr> g = Inr (Some ast, c2, g2) \<and> output_directive (drop (pos c2) p) = None"
  then have pe: "parseExpr \<lparr>text_cur = p, pos = 0\<rparr> g = Inr (Some ast, c2, g2)"
    and od: "output_directive (drop (pos c2) p) = None" by blast+
  show "parsePattern p d g = Inr (Some ast, d, g2)"
    using parsePattern_directive [OF pe, of d] od by simp
next
  show p: "parsePattern ''(a'' 0 1 = Inr (None, 0, 1)" by code_simp
  show "main ''(a'' inp n = Inr (EXIT_FAILURE, None)"
    unfolding main_def p by simp
qed

theorem compile_failures_witness:
  "term_start 2 \<lparr>text_cur = ''a+b+'', pos = 0\<rparr> 1 = Some (\<lparr>text_cur = ''a+b+'', pos = 4\<rparr>, 1)
   \<and> no_factor (drop 4 ''a+b+'')
   \<and> parsePattern ''a+b+'' 0 1 = Inr (None, 0, 1)
   \<and> term_start 1 \<lparr>text_cur = ''a+(b'', pos = 0\<rparr> 1 = Some (\<lparr>text_cur = ''a+(b'', pos = 2\<rparr>, 1)
   \<and> matchChar \<lparr>text_cur = ''a+(b'', pos = 2\<rparr> (CHR ''('') = (True, \<lparr>text_cur = ''a+(b'', pos = 3\<rparr>)
   \<and> parseExpr \<lparr>text_cur = ''a+(b'', pos = 3\<rparr> 1
        = Inr (Some (SequenceNode [CharacterNode CHR ''b'']), \<lparr>text_cur = ''a+(b'', pos = 4\<rparr>, 1)
   \<and> \<not> fst (matchChar \<lparr>text_cur = ''a+(b'', pos = 4\<rparr> (CHR '')''))
   \<and> parsePattern ''a+(b'' 0 1 = Inr (None, 0, 1)
   \<and> parseExpr \<lparr>text_cur = ''(a+*'', pos = 1\<rparr> 1 = Inr (None, \<lparr>text_cur = ''(a+*'', pos = 3\<rparr>, 1)
   \<and> parsePattern ''(a+*'' 0 1 = Inr (None, 0, 1)
   \<and> no_factor ([CHR 0x5C] @ ''Ia'')
   \<and> parsePattern ([CHR 0x5C] @ ''Ia'') 0 1 = Inr (None, 0, 1)
   \<and> no_factor ([CHR 0x5C] @ ''O{2}'')
   \<and> parsePattern ([CHR 0x5C] @ ''O{2}'') 0 1 = Inr (None, 2, 1)
   \<and> main ''a+b+'' ''ab'' 5 = Inr (EXIT_FAILURE, None)
   \<and> parseExpr \<lparr>text_cur = ''a'' @ [CHR 0x5C] @ ''O{'', pos = 0\<rparr> 1
        = Inr (Some (SequenceNode [CharacterNode CHR ''a'']), \<lparr>text_cur = ''a'' @ [CHR 0x5C] @ ''O{'', pos = 1\<rparr>, 1)
   \<and> output_directive ([CHR 0x5C] @ ''O{'') = None
   \<and> parsePattern (''a'' @ [CHR 0x5C] @ ''O{'') 0 1 = Inr (Some (SequenceNode [CharacterNode CHR ''a'']), 0, 1)"
proof -
  let ?c = "\<lambda>p n. \<lparr>text_cur = p, pos = n\<rparr>"
  have t1: "term_start 2 (?c ''a+b+'' 0) 1 = Some (?c ''a+b+'' 4, 1)" by code_simp
  have n1: "no_factor (drop 4 ''a+b+'')" by (simp add: no_factor_def)
  have f1: "parseFactor (?c ''a+b+'' 4) 1 = Inr (None, ?c ''a+b+'' 4, 1)"
    using compile_failures [where cur = "?c ''a+b+'' 4" and gc = 1] n1 by simp
  have p1: "parsePattern ''a+b+'' 0 1 = Inr (None, 0, 1)"
    using compile_failures [where k = 2 and p = "''a+b+''" and g = 1 and d = 0
        and ct = "?c ''a+b+'' 4" and gt = 1 and c' = "?c ''a+b+'' 4" and g' = 1] t1 f1
    by (simp add: output_directive_def)
  have t2: "term_start 1 (?c ''a+(b'' 0) 1 = Some (?c ''a+(b'' 2, 1)" by code_simp
  have m2: "matchChar (?c ''a+(b'' 2) (CHR ''('') = (True, ?c ''a+(b'' 3)"
    by (simp add: matchChar_def end_cur_def current_def advance_def)
  have e2: "parseExpr (?c ''a+(b'' 3) 1
        = Inr (Some (SequenceNode [CharacterNode CHR ''b'']), ?c ''a+(b'' 4, 1)"
    by code_simp
  have c2: "\<not> fst (matchChar (?c ''a+(b'' 4) (CHR '')''))"
    by (simp add: matchChar_def end_cur_def)
  have f2: "parseFactor (?c ''a+(b'' 2) 1 = Inr (None, ?c ''a+(b'' 4, 1)"
    using compile_failures [where cur = "?c ''a+(b'' 2" and gc = 1
        and e = "Some (SequenceNode [CharacterNode CHR ''b''])" and cur' = "?c ''a+(b'' 4" and gc' = 1]
      m2 e2 c2
    by simp
  have p2: "parsePattern ''a+(b'' 0 1 = Inr (None, 0, 1)"
    using compile_failures [where k = 1 and p = "''a+(b''" and g = 1 and d = 0
        and ct = "?c ''a+(b'' 2" and gt = 1 and c' = "?c ''a+(b'' 4" and g' = 1] t2 f2
    by (simp add: output_directive_def)
  have m3: "matchChar (?c ''(a+*'' 0) (CHR ''('') = (True, ?c ''(a+*'' 1)"
    by (simp add: matchChar_def end_cur_def current_def advance_def)
  have e3: "parseExpr (?c ''(a+*'' 1) 1 = Inr (None, ?c ''(a+*'' 3, 1)" by code_simp
  have c3: "\<not> fst (matchChar (?c ''(a+*'' 3) (CHR '')''))"
    by (simp add: matchChar_def end_cur_def current_def)
  have f3: "parseFactor (?c ''(a+*'' 0) 1 = Inr (None, ?c ''(a+*'' 3, 1)"
    using compile_failures [where cur = "?c ''(a+*'' 0" and gc = 1
        and e = None and cur' = "?c ''(a+*'' 3" and gc' = 1] m3 e3 c3
    by simp
  have p3: "parsePattern ''(a+*'' 0 1 = Inr (None, 0, 1)"
    using compile_failures [where k = 0 and p = "''(a+*''" and g = 1 and d = 0
        and ct = "?c ''(a+*'' 0" and gt = 1 and c' = "?c ''(a+*'' 3" and g' = 1] f3
    by (simp add: output_directive_def)
  have n4: "no_factor ([CHR 0x5C] @ ''Ia'')" by (simp add: no_factor_def)
  have f4: "parseFactor (?c ([CHR 0x5C] @ ''Ia'') 0) 1 = Inr (None, ?c ([CHR 0x5C] @ ''Ia'') 0, 1)"
    using compile_failures [where cur = "?c ([CHR 0x5C] @ ''Ia'') 0" and gc = 1] n4 by simp
  have p4: "parsePattern ([CHR 0x5C] @ ''Ia'') 0 1 = Inr (None, 0, 1)"
    using compile_failures [where k = 0 and p = "[CHR 0x5C] @ ''Ia''" and g = 1 and d = 0
        and ct = "?c ([CHR 0x5C] @ ''Ia'') 0" and gt = 1 and c' = "?c ([CHR 0x5C] @ ''Ia'') 0" and g' = 1] f4
    by (simp add: output_directive_def)
  have n5: "no_factor ([CHR 0x5C] @ ''O{2}'')" by (simp add: no_factor_def)
  have f5: "parseFactor (?c ([CHR 0x5C] @ ''O{2}'') 0) 1 = Inr (None, ?c ([CHR 0x5C] @ ''O{2}'') 0, 1)"
    using compile_failures [where cur = "?c ([CHR 0x5C] @ ''O{2}'') 0" and gc = 1] n5 by simp
  have p5: "parsePattern ([CHR 0x5C] @ ''O{2}'') 0 1 = Inr (None, 2, 1)"
    using compile_failures [where k = 0 and p = "[CHR 0x5C] @ ''O{2}''" and g = 1 and d = 0
        and ct = "?c ([CHR 0x5C] @ ''O{2}'') 0" and gt = 1 and c' = "?c ([CHR 0x5C] @ ''O{2}'') 0" and g' = 1] f5
    by (simp add: output_directive_def isdigit_def stoi_def digit_value_def)
  have mn: "main ''a+b+'' ''ab'' 5 = Inr (EXIT_FAILURE, None)"
    using compile_failures [where p = "''a+b+''" and d' = 0 and ?g1.0 = 1 and inp = "''ab''" and n = 5] p1
    by blast
  have e6: "parseExpr (?c (''a'' @ [CHR 0x5C] @ ''O{'') 0) 1
        = Inr (Some (SequenceNode [CharacterNode CHR ''a'']), ?c (''a'' @ [CHR 0x5C] @ ''O{'') 1, 1)"
    by code_simp
  have o6: "output_directive ([CHR 0x5C] @ ''O{'') = None" by (simp add: output_directive_def)
  have p6: "parsePattern (''a'' @ [CHR 0x5C] @ ''O{'') 0 1 = Inr (Some (SequenceNode [CharacterNode CHR ''a'']), 0, 1)"
    using compile_failures [where p = "''a'' @ [CHR 0x5C] @ ''O{''" and g = 1 and d = 0
        and ast = "SequenceNode [CharacterNode CHR ''a'']"
        and ?c2.0 = "?c (''a'' @ [CHR 0x5C] @ ''O{'') 1" and ?g2.0 = 1] e6 o6
    by simp
  show ?thesis using t1 n1 p1 t2 m2 e2 c2 p2 e3 p3 n4 p4 n5 p5 mn e6 o6 p6 by blast
qed

text \<open>
  The claim as written also promises a failure for an output directive without digits;
  the directive block restores the cursor and the compilation succeeds.
\<close>

theorem compile_failures_counterexample:
  "output_directive ([CHR 0x5C] @ ''O{}'') = None
   \<and> parsePattern (''a'' @ [CHR 0x5C] @ ''O{}'') 0 1 = Inr (Some (SequenceNode [CharacterNode CHR ''a'']), 0, 1)
   \<and> main (''a'' @ [CHR 0x5C] @ ''O{}'') ''a'' 5 = Inr (EXIT_SUCCESS, Some ''a'')"
  by (intro conjI; code_simp)

text \<open>
  Three more of the violations that the claim names go unreported, each for want of a
  check. \<^verbatim>\<open>parseCount\<close> gives up on the braces of \<open>a{}\<close> with the cursor behind them, and
  \<^verbatim>\<open>parseFactor\<close> keeps the node it had (the comment in \<^verbatim>\<open>parseCount\<close> calls this a parse
  error). The \<^verbatim>\<open>nullptr\<close> of an unmatched group that follows a factor, as in \<open>b(a\<close>, ends the
  term as the end of the pattern does. \<^verbatim>\<open>parseGroup\<close> does not test the result of
  \<^verbatim>\<open>parseExpr\<close> as \<^verbatim>\<open>parseExpr\<close> tests its operands, so the empty term of \<open>(a+)\<close> becomes a
  group without a child. The statement above says nothing about these patterns.
\<close>

lemma unreported_violations:
  "parsePattern ''a{}'' 0 1 = Inr (Some (SequenceNode [CharacterNode CHR ''a'']), 0, 1)
   \<and> parsePattern ''b(a'' 0 1 = Inr (Some (SequenceNode [CharacterNode CHR ''b'']), 0, 1)
   \<and> parsePattern ''(a+)'' 0 1 = Inr (Some (SequenceNode [GroupNode None 1]), 0, 2)"
  by (intro conjI; code_simp)

text \<open>
  These are the only patterns for which no tree is returned: when \<^verbatim>\<open>parseExpr\<close> returns no
  tree, a term of the top level is empty, and the factor that is missing there is missing
  for one of the two reasons above.
\<close>

lemma parseTerm_loop_nonempty:
  "children \<noteq> [] \<Longrightarrow> parseTerm_loop children cur gc \<noteq> Inr (None, c', g')"
proof -
  have "True" and "True" and "True"
    and "children \<noteq> [] \<longrightarrow> (\<forall>c' g'. parseTerm_loop children cur gc \<noteq> Inr (None, c', g'))"
    and "True" and "True"
  proof (induction _ _ and _ _ _ and _ _ and children cur gc and _ _ and _ _ rule: parse_induct)
    case (parseTerm_loop children cur gc)
    show ?case
    proof (intro impI allI notI)
      fix c' g'
      assume ne: "children \<noteq> []" and r: "parseTerm_loop children cur gc = Inr (None, c', g')"
      from r show False
      proof (cases rule: parseTerm_loop_cases)
        case (stop cur1 gc1)
        then show ?thesis using ne by simp
      next
        case (loop f cur1 gc1)
        then show ?thesis using parseTerm_loop(2) [OF loop(1)] by simp
      qed
    qed
  qed simp_all
  then show "children \<noteq> [] \<Longrightarrow> parseTerm_loop children cur gc \<noteq> Inr (None, c', g')" by blast
qed

lemma parseTerm_None:
  assumes "parseTerm cur gc = Inr (None, c', g')"
  shows "parseFactor cur gc = Inr (None, c', g')"
proof -
  from assms have "parseTerm_loop [] cur gc = Inr (None, c', g')"
    by (simp add: parseTerm.simps [of cur gc])
  then show ?thesis
  proof (cases rule: parseTerm_loop_cases)
    case (stop cur1 gc1)
    then show ?thesis by simp
  next
    case (loop f cur1 gc1)
    then show ?thesis using parseTerm_loop_nonempty [of "[] @ [f]" cur1 gc1 c' g'] by simp
  qed
qed

lemma parseExpr_loop_None:
  "parseExpr_loop left cur gc = Inr (None, c', g') \<Longrightarrow>
     \<exists>k ct gt. fst (matchChar cur (CHR ''+''))
        \<and> term_start k (snd (matchChar cur (CHR ''+''))) gc = Some (ct, gt)
        \<and> parseFactor ct gt = Inr (None, c', g')"
proof -
  have "True"
    and "parseExpr_loop left cur gc = Inr (None, c', g') \<longrightarrow>
       (\<exists>k ct gt. fst (matchChar cur (CHR ''+''))
          \<and> term_start k (snd (matchChar cur (CHR ''+''))) gc = Some (ct, gt)
          \<and> parseFactor ct gt = Inr (None, c', g'))"
    and "True" and "True" and "True" and "True"
  proof (induction _ _ and left cur gc and _ _ and _ _ _ and _ _ and _ _ rule: parse_induct)
    case (parseExpr_loop left cur gc)
    show ?case
    proof (intro impI)
      assume "parseExpr_loop left cur gc = Inr (None, c', g')"
      then show "\<exists>k ct gt. fst (matchChar cur (CHR ''+''))
          \<and> term_start k (snd (matchChar cur (CHR ''+''))) gc = Some (ct, gt)
          \<and> parseFactor ct gt = Inr (None, c', g')"
      proof (cases rule: parseExpr_loop_cases)
        case stop
        then show ?thesis by simp
      next
        case (empty cur1 gc1)
        have "parseFactor (snd (matchChar cur (CHR ''+''))) gc = Inr (None, c', g')"
          using parseTerm_None empty by simp
        moreover have "term_start 0 (snd (matchChar cur (CHR ''+''))) gc
            = Some (snd (matchChar cur (CHR ''+'')), gc)" by simp
        ultimately show ?thesis using empty(1) by blast
      next
        case (loop right cur1 gc1)
        from parseExpr_loop(2) [OF loop(1,2)] loop(3)
        obtain k ct gt where m: "fst (matchChar cur1 (CHR ''+''))"
          and ts: "term_start k (snd (matchChar cur1 (CHR ''+''))) gc1 = Some (ct, gt)"
          and pf: "parseFactor ct gt = Inr (None, c', g')" by blast
        have "term_start (Suc k) (snd (matchChar cur (CHR ''+''))) gc = Some (ct, gt)"
          using loop(2) m ts by simp
        then show ?thesis using loop(1) pf by blast
      qed
    qed
  qed simp_all
  then show "parseExpr_loop left cur gc = Inr (None, c', g') \<Longrightarrow>
     \<exists>k ct gt. fst (matchChar cur (CHR ''+''))
        \<and> term_start k (snd (matchChar cur (CHR ''+''))) gc = Some (ct, gt)
        \<and> parseFactor ct gt = Inr (None, c', g')" by blast
qed

lemma compile_failures_only:
  assumes "parsePattern p d g = Inr (None, d', g')"
  shows "\<exists>k ct gt c'. term_start k \<lparr>text_cur = p, pos = 0\<rparr> g = Some (ct, gt)
           \<and> parseFactor ct gt = Inr (None, c', g')
           \<and> (no_factor (drop (pos ct) p) \<and> c' = ct \<and> g' = gt
              \<or> fst (matchChar ct (CHR ''(''))
                \<and> (\<exists>e. parseExpr (snd (matchChar ct (CHR ''(''))) gt = Inr (e, c', g'))
                \<and> \<not> fst (matchChar c' (CHR '')'')))"
proof -
  let ?c0 = "\<lparr>text_cur = p, pos = 0\<rparr>"
  from assms obtain c' where pe: "parseExpr ?c0 g = Inr (None, c', g')"
    by (auto simp: parsePattern_def split: sum.splits)
  from pe have "\<exists>k ct gt. term_start k ?c0 g = Some (ct, gt) \<and> parseFactor ct gt = Inr (None, c', g')"
  proof (cases rule: parseExpr_cases)
    case (empty cur1 gc1)
    then have "parseFactor ?c0 g = Inr (None, c', g')" using parseTerm_None by simp
    moreover have "term_start 0 ?c0 g = Some (?c0, g)" by simp
    ultimately show ?thesis by blast
  next
    case (loop left cur1 gc1)
    from parseExpr_loop_None [OF loop(2)]
    obtain k ct gt where m: "fst (matchChar cur1 (CHR ''+''))"
      and ts: "term_start k (snd (matchChar cur1 (CHR ''+''))) gc1 = Some (ct, gt)"
      and pf: "parseFactor ct gt = Inr (None, c', g')" by blast
    have "term_start (Suc k) ?c0 g = Some (ct, gt)" using loop(1) m ts by simp
    then show ?thesis using pf by blast
  qed
  then obtain k ct gt where ts: "term_start k ?c0 g = Some (ct, gt)"
    and pf: "parseFactor ct gt = Inr (None, c', g')" by blast
  have tc: "text_cur ct = p" using text_cur_term_start [OF ts] by simp
  from pf have "no_factor (drop (pos ct) p) \<and> c' = ct \<and> g' = gt
              \<or> fst (matchChar ct (CHR ''(''))
                \<and> (\<exists>e. parseExpr (snd (matchChar ct (CHR ''(''))) gt = Inr (e, c', g'))
                \<and> \<not> fst (matchChar c' (CHR '')''))"
  proof (cases rule: parseFactor_cases)
    case group
    from group(2) show ?thesis
    proof (cases rule: parseGroup_cases)
      case (unclosed e cur1 gc1)
      then show ?thesis using group(1) by blast
    next
      case (closed e cur1 gc1 base)
      then show ?thesis by simp
    qed
  next
    case (dot base)
    then show ?thesis by simp
  next
    case (char base)
    then show ?thesis by simp
  next
    case none
    have "no_factor (drop (pos ct) (text_cur ct))"
    proof (cases "end_cur ct")
      case True
      then show ?thesis by (simp add: no_factor_def drop_cursor_end)
    next
      case False
      then have sp: "special (current ct)" "current ct \<noteq> CHR ''.''" using none(2) by simp_all
      have "current ct \<noteq> CHR ''(''" using none(1) False by (auto simp: matchChar_def)
      then have "current ct \<in> set (''+*){}'' @ [CHR 0x5C])" using sp by (auto simp: special_def)
      then show ?thesis using drop_cursor [OF False] by (simp add: no_factor_def)
    qed
    then show ?thesis using none(4,5) tc by simp
  qed
  then show ?thesis using ts pf by blast
qed

section \<open>Compiling the same pattern again\<close>

lemma parseCount_shift:
  "parseCount base cur = Inr (r, cur') \<Longrightarrow>
     parseCount (shift d base) cur = Inr (map_option (shift d) r, cur')"
  by (auto simp: parseCount_def Let_def split: prod.splits if_splits sum.splits)

lemma parseIgnoreCase_shift:
  "parseIgnoreCase (shift d base) cur
     = (map_option (shift d) (fst (parseIgnoreCase base cur)), snd (parseIgnoreCase base cur))"
  by (simp add: parseIgnoreCase_def Let_def)

lemma parseSuffix_shift:
  assumes "parseSuffix base cur = Inr (n, cur')"
  shows "parseSuffix (shift d base) cur = Inr (shift d n, cur')"
proof -
  obtain expanded cur1 where pc: "parseCount base cur = Inr (expanded, cur1)"
    and n: "n = (case fst (parseIgnoreCase (case expanded of Some m \<Rightarrow> m | None \<Rightarrow> base) cur1) of
                 Some m \<Rightarrow> m
               | None \<Rightarrow> (case expanded of Some m \<Rightarrow> m | None \<Rightarrow> base))"
    and c: "cur' = snd (parseIgnoreCase (case expanded of Some m \<Rightarrow> m | None \<Rightarrow> base) cur1)"
    using assms unfolding parseSuffix_Inr by blast
  define base1 where "base1 = (case expanded of Some m \<Rightarrow> m | None \<Rightarrow> base)"
  have s1: "(case map_option (shift d) expanded of Some m \<Rightarrow> m | None \<Rightarrow> shift d base) = shift d base1"
    by (cases expanded) (simp_all add: base1_def)
  have "parseSuffix (shift d base) cur = Inr (shift d n, cur') \<longleftrightarrow>
      (\<exists>expanded' cur1'. parseCount (shift d base) cur = Inr (expanded', cur1')
        \<and> shift d n = (case fst (parseIgnoreCase (case expanded' of Some m \<Rightarrow> m | None \<Rightarrow> shift d base) cur1') of
                 Some m \<Rightarrow> m
               | None \<Rightarrow> (case expanded' of Some m \<Rightarrow> m | None \<Rightarrow> shift d base))
        \<and> cur' = snd (parseIgnoreCase (case expanded' of Some m \<Rightarrow> m | None \<Rightarrow> shift d base) cur1'))"
    by (rule parseSuffix_Inr)
  moreover have "parseCount (shift d base) cur = Inr (map_option (shift d) expanded, cur1)"
    by (rule parseCount_shift [OF pc])
  moreover have "shift d n = (case fst (parseIgnoreCase (shift d base1) cur1) of
                 Some m \<Rightarrow> m | None \<Rightarrow> shift d base1)"
    unfolding n base1_def [symmetric] parseIgnoreCase_shift
    by (cases "fst (parseIgnoreCase base1 cur1)") simp_all
  moreover have "cur' = snd (parseIgnoreCase (shift d base1) cur1)"
    unfolding c base1_def [symmetric] parseIgnoreCase_shift by simp
  ultimately show ?thesis unfolding s1 [symmetric] by blast
qed

lemma parse_shift:
  "\<forall>r c' g' d. parseExpr c1 g1 = Inr (r, c', g') \<and> 0 \<le> d \<and> g' + d \<le> 2147483647 \<longrightarrow>
     parseExpr c1 (g1 + d) = Inr (map_option (shift d) r, c', g' + d)"
  "\<forall>r c' g' d. parseExpr_loop l2 c2 g2 = Inr (r, c', g') \<and> 0 \<le> d \<and> g' + d \<le> 2147483647 \<longrightarrow>
     parseExpr_loop (shift d l2) c2 (g2 + d) = Inr (map_option (shift d) r, c', g' + d)"
  "\<forall>r c' g' d. parseTerm c3 g3 = Inr (r, c', g') \<and> 0 \<le> d \<and> g' + d \<le> 2147483647 \<longrightarrow>
     parseTerm c3 (g3 + d) = Inr (map_option (shift d) r, c', g' + d)"
  "\<forall>r c' g' d. parseTerm_loop s4 c4 g4 = Inr (r, c', g') \<and> 0 \<le> d \<and> g' + d \<le> 2147483647 \<longrightarrow>
     parseTerm_loop (map (shift d) s4) c4 (g4 + d) = Inr (map_option (shift d) r, c', g' + d)"
  "\<forall>r c' g' d. parseFactor c5 g5 = Inr (r, c', g') \<and> 0 \<le> d \<and> g' + d \<le> 2147483647 \<longrightarrow>
     parseFactor c5 (g5 + d) = Inr (map_option (shift d) r, c', g' + d)"
  "\<forall>r c' g' d. parseGroup c6 g6 = Inr (r, c', g') \<and> 0 \<le> d \<and> g' + d \<le> 2147483647 \<longrightarrow>
     parseGroup c6 (g6 + d) = Inr (map_option (shift d) r, c', g' + d)"
proof (induction c1 g1 and l2 c2 g2 and c3 g3 and s4 c4 g4 and c5 g5 and c6 g6 rule: parse_induct)
  case (parseExpr cur gc)
  show ?case
  proof (intro allI impI, elim conjE)
    fix r c' g' d
    assume res: "parseExpr cur gc = Inr (r, c', g')" and d: "0 \<le> d" "g' + d \<le> 2147483647"
    from res show "parseExpr cur (gc + d) = Inr (map_option (shift d) r, c', g' + d)"
    proof (cases rule: parseExpr_cases)
      case (empty cur1 gc1)
      have "parseTerm cur (gc + d) = Inr (map_option (shift d) None, cur1, gc1 + d)"
        using parseExpr(1) [rule_format, of None cur1 gc1 d] empty(1) d by (simp add: empty(4))
      then show ?thesis by (simp add: parseExpr.simps [of cur "gc + d"] empty(2,3,4))
    next
      case (loop left cur1 gc1)
      have "gc1 \<le> g'" using parse_numbered(2) [rule_format, OF loop(2)] by simp
      then have "parseTerm cur (gc + d) = Inr (map_option (shift d) (Some left), cur1, gc1 + d)"
        using parseExpr(1) [rule_format, of "Some left" cur1 gc1 d] loop(1) d by simp
      moreover have "parseExpr_loop (shift d left) cur1 (gc1 + d) = Inr (map_option (shift d) r, c', g' + d)"
        using parseExpr(2) [OF loop(1), rule_format, of r c' g' d] loop(2) d by simp
      ultimately show ?thesis by (simp add: parseExpr.simps [of cur "gc + d"])
    qed
  qed
next
  case (parseExpr_loop left cur gc)
  show ?case
  proof (intro allI impI, elim conjE)
    fix r c' g' d
    assume res: "parseExpr_loop left cur gc = Inr (r, c', g')" and d: "0 \<le> d" "g' + d \<le> 2147483647"
    from res show "parseExpr_loop (shift d left) cur (gc + d) = Inr (map_option (shift d) r, c', g' + d)"
    proof (cases rule: parseExpr_loop_cases)
      case stop
      then show ?thesis by (simp add: parseExpr_loop.simps [of "shift d left" cur "gc + d"])
    next
      case (empty cur1 gc1)
      have "parseTerm (snd (matchChar cur (CHR ''+''))) (gc + d) = Inr (map_option (shift d) None, cur1, gc1 + d)"
        using parseExpr_loop(1) [OF empty(1), rule_format, of None cur1 gc1 d] empty(2) d
        by (simp add: empty(5))
      then show ?thesis
        using empty(1) by (simp add: parseExpr_loop.simps [of "shift d left" cur "gc + d"] empty(3,4,5))
    next
      case (loop right cur1 gc1)
      have "gc1 \<le> g'" using parse_numbered(2) [rule_format, OF loop(3)] by simp
      then have "parseTerm (snd (matchChar cur (CHR ''+''))) (gc + d)
          = Inr (map_option (shift d) (Some right), cur1, gc1 + d)"
        using parseExpr_loop(1) [OF loop(1), rule_format, of "Some right" cur1 gc1 d] loop(2) d by simp
      moreover have "parseExpr_loop (shift d (OrNode left right)) cur1 (gc1 + d)
          = Inr (map_option (shift d) r, c', g' + d)"
        using parseExpr_loop(2) [OF loop(1) loop(2), rule_format, of r c' g' d] loop(3) d by simp
      ultimately show ?thesis
        using loop(1) by (simp add: parseExpr_loop.simps [of "shift d left" cur "gc + d"])
    qed
  qed
next
  case (parseTerm cur gc)
  show ?case
  proof (intro allI impI, elim conjE)
    fix r c' g' d
    assume res: "parseTerm cur gc = Inr (r, c', g')" and d: "0 \<le> d" "g' + d \<le> 2147483647"
    then have "parseTerm_loop [] cur gc = Inr (r, c', g')" by (simp add: parseTerm.simps [of cur gc])
    then have "parseTerm_loop (map (shift d) []) cur (gc + d) = Inr (map_option (shift d) r, c', g' + d)"
      using parseTerm [rule_format, of r c' g' d] d by simp
    then show "parseTerm cur (gc + d) = Inr (map_option (shift d) r, c', g' + d)"
      by (simp add: parseTerm.simps [of cur "gc + d"])
  qed
next
  case (parseTerm_loop children cur gc)
  show ?case
  proof (intro allI impI, elim conjE)
    fix r c' g' d
    assume res: "parseTerm_loop children cur gc = Inr (r, c', g')" and d: "0 \<le> d" "g' + d \<le> 2147483647"
    from res show "parseTerm_loop (map (shift d) children) cur (gc + d)
        = Inr (map_option (shift d) r, c', g' + d)"
    proof (cases rule: parseTerm_loop_cases)
      case (stop cur1 gc1)
      have "parseFactor cur (gc + d) = Inr (map_option (shift d) None, cur1, gc1 + d)"
        using parseTerm_loop(1) [rule_format, of None cur1 gc1 d] stop(1) d by (simp add: stop(4))
      then show ?thesis
        by (simp add: parseTerm_loop.simps [of "map (shift d) children" cur "gc + d"] stop(2,3,4))
    next
      case (loop f cur1 gc1)
      have "gc1 \<le> g'" using parse_numbered(4) [rule_format, OF loop(2)] by simp
      then have "parseFactor cur (gc + d) = Inr (map_option (shift d) (Some f), cur1, gc1 + d)"
        using parseTerm_loop(1) [rule_format, of "Some f" cur1 gc1 d] loop(1) d by simp
      moreover have "parseTerm_loop (map (shift d) (children @ [f])) cur1 (gc1 + d)
          = Inr (map_option (shift d) r, c', g' + d)"
        using parseTerm_loop(2) [OF loop(1), rule_format, of r c' g' d] loop(2) d by simp
      ultimately show ?thesis
        by (simp add: parseTerm_loop.simps [of "map (shift d) children" cur "gc + d"])
    qed
  qed
next
  case (parseFactor cur gc)
  show ?case
  proof (intro allI impI, elim conjE)
    fix r c' g' d
    assume res: "parseFactor cur gc = Inr (r, c', g')" and d: "0 \<le> d" "g' + d \<le> 2147483647"
    from res show "parseFactor cur (gc + d) = Inr (map_option (shift d) r, c', g' + d)"
    proof (cases rule: parseFactor_cases)
      case group
      have "parseGroup (snd (matchChar cur (CHR ''(''))) (gc + d) = Inr (map_option (shift d) r, c', g' + d)"
        using parseFactor [OF group(1), rule_format, of r c' g' d] group(2) d by simp
      then show ?thesis using group(1) by (simp add: parseFactor.simps [of cur "gc + d"])
    next
      case (dot base)
      have "parseSuffix DotNode (advance cur) = Inr (shift d base, c')"
        using parseSuffix_shift [OF dot(4), of d] by simp
      then show ?thesis
        using dot(1,2,3) by (simp add: parseFactor.simps [of cur "gc + d"] dot(5,6))
    next
      case (char base)
      have "parseSuffix (CharacterNode (current cur)) (advance cur) = Inr (shift d base, c')"
        using parseSuffix_shift [OF char(5), of d] by simp
      then show ?thesis
        using char(1,2,3,4) by (simp add: parseFactor.simps [of cur "gc + d"] char(6,7))
    next
      case none
      have "parseFactor cur (gc + d) = Inr (None, cur, gc + d)"
        using none(1,2) by (cases "end_cur cur") (simp_all add: parseFactor.simps [of cur "gc + d"])
      then show ?thesis by (simp add: none(3,4,5))
    qed
  qed
next
  case (parseGroup cur gc)
  show ?case
  proof (intro allI impI, elim conjE)
    fix r c' g' d
    assume res: "parseGroup cur gc = Inr (r, c', g')" and d: "0 \<le> d" "g' + d \<le> 2147483647"
    from res show "parseGroup cur (gc + d) = Inr (map_option (shift d) r, c', g' + d)"
    proof (cases rule: parseGroup_cases)
      case (unclosed e cur1 gc1)
      have "parseExpr cur (gc + d) = Inr (map_option (shift d) e, cur1, gc1 + d)"
        using parseGroup [rule_format, of e cur1 gc1 d] unclosed(1) d by (simp add: unclosed(5))
      then show ?thesis
        using unclosed(2) by (simp add: parseGroup.simps [of cur "gc + d"] unclosed(3,4,5))
    next
      case (closed e cur1 gc1 base)
      have le: "gc1 + d < 2147483647" using d closed(6) by simp
      then have "parseExpr cur (gc + d) = Inr (map_option (shift d) e, cur1, gc1 + d)"
        using parseGroup [rule_format, of e cur1 gc1 d] closed(1) d by simp
      moreover have "parseSuffix (GroupNode (map_option (shift d) e) (gc1 + d))
          (snd (matchChar cur1 (CHR '')''))) = Inr (shift d base, c')"
        using parseSuffix_shift [OF closed(4), of d] by simp
      ultimately show ?thesis
        using closed(2) le by (simp add: parseGroup.simps [of cur "gc + d"] closed(5,6))
    qed
  qed
qed

lemma parsePattern_shift:
  assumes "parsePattern p out g = Inr (r, out', g')" and "0 \<le> d" and "g' + d \<le> 2147483647"
  shows "parsePattern p out (g + d) = Inr (map_option (shift d) r, out', g' + d)"
proof -
  obtain cur where e: "parseExpr \<lparr>text_cur = p, pos = 0\<rparr> g = Inr (r, cur, g')"
    and o: "\<exists>cur'. parseOutput cur out = Inr (cur', out')"
    using assms(1) by (auto simp: parsePattern_def split: sum.splits)
  have "parseExpr \<lparr>text_cur = p, pos = 0\<rparr> (g + d) = Inr (map_option (shift d) r, cur, g' + d)"
    using parse_shift(1) [rule_format, of "\<lparr>text_cur = p, pos = 0\<rparr>" g r cur g' d] e assms(2,3) by simp
  then show ?thesis using o by (auto simp: parsePattern_def)
qed

lemma raise_table_Cons:
  "raise_table m (x # ys) = (if ys = [] then [x] else x # replicate m None @ ys)"
  by (cases ys) simp_all

lemma raise_table_Nil [simp]: "raise_table m xs = [] \<longleftrightarrow> xs = []"
  by (cases xs) (simp_all add: raise_table_Cons)

lemma raise_table_short: "length xs \<le> 1 \<Longrightarrow> raise_table m xs = xs"
  by (cases xs) (simp_all add: raise_table_Cons)

lemma raise_table_nth0: "raise_table m xs ! 0 = xs ! 0"
  by (cases xs) (simp_all add: raise_table_Cons)

lemma raise_table_update0: "(raise_table m xs)[0 := v] = raise_table m (xs[0 := v])"
  by (cases xs) (simp_all add: raise_table_Cons)

lemma raise_table_nth_raised:
  assumes "1 \<le> k" and "k < length xs"
  shows "raise_table m xs ! (k + m) = xs ! k" and "length (raise_table m xs) = length xs + m"
proof -
  obtain x ys where xs: "xs = x # ys" using assms(2) by (cases xs) auto
  then have ne: "ys \<noteq> []" using assms by auto
  obtain j where k: "k = Suc j" using assms(1) by (cases k) auto
  show "raise_table m xs ! (k + m) = xs ! k"
    using ne by (simp add: xs k raise_table_Cons nth_append)
  show "length (raise_table m xs) = length xs + m"
    using ne by (simp add: xs raise_table_Cons)
qed

lemma raise_table_nth_gap:
  assumes "1 \<le> k" and "k \<le> m" and "k < length (raise_table m xs)"
  shows "raise_table m xs ! k = None"
proof -
  obtain x ys where xs: "xs = x # ys" using assms(3) by (cases xs) auto
  obtain j where k: "k = Suc j" using assms(1) by (cases k) auto
  have ne: "ys \<noteq> []" using assms(1,3) by (auto simp: xs raise_table_Cons split: if_splits)
  have "j < m" using assms(2) k by simp
  then show ?thesis using ne by (simp add: xs k raise_table_Cons nth_append)
qed

lemma length_raise_table: "length (raise_table m xs) = (if length xs \<le> 1 then length xs else length xs + m)"
  by (cases xs) (auto simp: raise_table_Cons)

lemma write_slot_nonempty [simp]: "write_slot n v xs \<noteq> []"
  by (auto simp: write_slot_def resize_def)

lemma write_slot_Cons: "write_slot (Suc n) v (x # xs) = x # write_slot n v xs"
  by (simp add: write_slot_def resize_def)

lemma write_slot_Nil: "write_slot n v [] = replicate n None @ [v]"
proof -
  have "(replicate n None @ [None])[n := v] = replicate n None @ [v]"
    by (simp add: list_update_append)
  then show ?thesis
    by (simp add: write_slot_def resize_def replicate_append_same)
qed

lemma write_slot_append: "write_slot (n + length zs) v (zs @ xs) = zs @ write_slot n v xs"
  by (simp add: write_slot_def resize_def list_update_append)

lemma write_slot_raise:
  assumes "1 \<le> n" and "xs \<noteq> []"
  shows "write_slot (n + m) v (raise_table m xs) = raise_table m (write_slot n v xs)"
proof -
  obtain x ys where xs: "xs = x # ys" using assms(2) by (cases xs) auto
  obtain j where n: "n = Suc j" using assms(1) by (cases n) auto
  have r: "raise_table m (write_slot n v xs) = x # replicate m None @ write_slot j v ys"
    by (simp add: xs n write_slot_Cons raise_table_Cons)
  show ?thesis
  proof (cases "ys = []")
    case True
    then show ?thesis
      unfolding r
      by (simp add: xs n write_slot_Cons write_slot_Nil replicate_add [symmetric] add.commute)
  next
    case False
    have "write_slot (j + length (replicate m (None :: 'a option))) v (replicate m None @ ys)
        = replicate m None @ write_slot j v ys"
      by (rule write_slot_append)
    then show ?thesis
      unfolding r using False by (simp add: xs n write_slot_Cons raise_table_Cons)
  qed
qed

lemma captures_store_capture:
  "0 \<le> i \<Longrightarrow> captures (store_capture i s e c)
     = write_slot (nat i) (Some \<lparr>startIndex = s, endIndex = e, valid = True\<rparr>) (captures c)"
  by (auto simp: store_capture_def write_slot_def Let_def nat_add_distrib)

lemma sim_funD: "sim_fun m f f' \<Longrightarrow> sim m a b \<Longrightarrow> sim_outcome m (f a) (f' b)"
  by (simp add: sim_fun_def)

lemma sim_outcome_cases:
  assumes "sim_outcome m x y"
  obtains (err) e where "x = Inl e" "y = Inl e"
    | (ret) ok a b where "x = Inr (ok, a)" "y = Inr (ok, b)" "sim m a b"
  using assms by (cases x; cases y) auto

lemma sim_position: "sim m a b \<Longrightarrow> sim m (a\<lparr>position := p\<rparr>) (b\<lparr>position := p\<rparr>)"
  by (simp add: sim_def)

lemma seq_loop_sim:
  assumes "list_all2 (sim_fun m) fs fs'" and "sim m a b"
  shows "sim_outcome m (seq_loop fs s a) (seq_loop fs' s b)"
  using assms
proof (induction fs fs' arbitrary: a b rule: list_all2_induct)
  case Nil
  then show ?case by simp
next
  case (Cons f fs f' fs')
  from sim_funD [OF Cons.hyps(1) Cons.prems] show ?case
  proof (cases rule: sim_outcome_cases)
    case (err e)
    then show ?thesis by simp
  next
    case (ret ok a' b')
    then show ?thesis using Cons.IH [OF ret(3)] by (simp add: sim_position)
  qed
qed

lemma count_loop_sim:
  assumes "sim_fun m f f'" and "sim m a b"
  shows "sim_outcome m (count_loop k f s a) (count_loop k f' s b)"
  using assms(2)
proof (induction k arbitrary: a b)
  case 0
  then show ?case by simp
next
  case (Suc k)
  from sim_funD [OF assms(1) Suc.prems] show ?case
  proof (cases rule: sim_outcome_cases)
    case (err e)
    then show ?thesis by simp
  next
    case (ret ok a' b')
    then show ?thesis using Suc.IH [OF ret(3)] by (simp add: sim_position)
  qed
qed

lemma star_loop_sim:
  assumes "sim_fun m f f'" and "sim m a b"
  shows "sim_outcome m (star_loop k f cnt a) (star_loop k f' cnt b)"
  using assms(2)
proof (induction k arbitrary: a b cnt)
  case 0
  then show ?case by simp
next
  case (Suc k)
  from sim_funD [OF assms(1) Suc.prems] show ?case
  proof (cases rule: sim_outcome_cases)
    case (err e)
    then show ?thesis by simp
  next
    case (ret ok a' b')
    have "position a = position b" using Suc.prems by (simp add: sim_def)
    then show ?thesis using ret Suc.IH [OF ret(3)] by (simp add: sim_position)
  qed
qed

lemma store_capture_sim:
  assumes "sim m a b" and "1 \<le> i"
  shows "sim m (store_capture i s e a) (store_capture (i + int m) s e b)"
proof -
  let ?v = "Some \<lparr>startIndex = s, endIndex = e, valid = True\<rparr>"
  have ca: "captures (store_capture i s e a) = write_slot (nat i) ?v (captures a)"
    using assms(2) by (simp add: captures_store_capture)
  have "captures (store_capture (i + int m) s e b) = write_slot (nat (i + int m)) ?v (captures b)"
    using assms(2) by (simp add: captures_store_capture)
  also have "nat (i + int m) = nat i + m" using assms(2) by (simp add: nat_add_distrib)
  also have "write_slot (nat i + m) ?v (captures b) = raise_table m (write_slot (nat i) ?v (captures a))"
    using assms write_slot_raise [of "nat i" "captures a" m ?v] by (simp add: sim_def)
  finally have cb: "captures (store_capture (i + int m) s e b)
      = raise_table m (captures (store_capture i s e a))" by (simp add: ca)
  have "captures (store_capture i s e a) \<noteq> []"
    unfolding ca by simp
  then show ?thesis
    using assms(1) cb by (simp add: sim_def store_capture_fields(1,2,3))
qed

lemma match_shift:
  assumes "\<forall>i\<in>set (group_order n). 1 \<le> i"
  shows "sim_fun m (match n fuel) (match (shift (int m) n) fuel)"
  using assms(1)
proof (induction n)
  case (CharacterNode ch)
  show ?case
    by (auto simp: sim_fun_def sim_def atEnd_def currentChar_def Let_def)
next
  case DotNode
  show ?case by (auto simp: sim_fun_def sim_def atEnd_def)
next
  case (SequenceNode children)
  have "\<forall>c\<in>set children. sim_fun m (match c fuel) (match (shift (int m) c) fuel)"
  proof
    fix c assume c: "c \<in> set children"
    then have "\<forall>i\<in>set (group_order c). 1 \<le> i" using SequenceNode.prems by auto
    then show "sim_fun m (match c fuel) (match (shift (int m) c) fuel)" using SequenceNode.IH c by blast
  qed
  then have l: "list_all2 (sim_fun m) (map (\<lambda>c. match c fuel) children)
      (map (\<lambda>c. match c fuel) (map (shift (int m)) children))"
    by (simp add: list_all2_map1 list_all2_map2 list.rel_refl_strong)
  show ?case
    unfolding sim_fun_def
  proof (intro allI impI)
    fix a b assume s: "sim m a b"
    then have "position a = position b" by (simp add: sim_def)
    then show "sim_outcome m (match (SequenceNode children) fuel a)
        (match (shift (int m) (SequenceNode children)) fuel b)"
      using seq_loop_sim [OF l s, of "position a"] by simp
  qed
next
  case (OrNode lhs rhs)
  have l: "sim_fun m (match lhs fuel) (match (shift (int m) lhs) fuel)"
    and r: "sim_fun m (match rhs fuel) (match (shift (int m) rhs) fuel)"
    using OrNode by simp_all
  show ?case
    unfolding sim_fun_def
  proof (intro allI impI)
    fix a b assume s: "sim m a b"
    then have p: "position a = position b" by (simp add: sim_def)
    from sim_funD [OF l s]
    show "sim_outcome m (match (OrNode lhs rhs) fuel a) (match (shift (int m) (OrNode lhs rhs)) fuel b)"
    proof (cases rule: sim_outcome_cases)
      case (err e)
      then show ?thesis by simp
    next
      case (ret ok a' b')
      show ?thesis
      proof (cases ok)
        case True
        then show ?thesis using ret by simp
      next
        case False
        have "sim m (a'\<lparr>position := position a\<rparr>) (b'\<lparr>position := position b\<rparr>)"
          using ret(3) p by (simp add: sim_position)
        from sim_funD [OF r this] show ?thesis using ret False by simp
      qed
    qed
  qed
next
  case (GroupNode expr groupIndex)
  have gi: "1 \<le> groupIndex" using GroupNode.prems by simp
  show ?case
  proof (cases expr)
    case None
    then show ?thesis by (simp add: sim_fun_def)
  next
    case (Some e)
    have "\<forall>i\<in>set (group_order e). 1 \<le> i" using GroupNode.prems Some by simp
    then have ih: "sim_fun m (match e fuel) (match (shift (int m) e) fuel)"
      using GroupNode.IH Some by simp
    show ?thesis
      unfolding sim_fun_def
    proof (intro allI impI)
      fix a b assume s: "sim m a b"
      then have p: "position a = position b" by (simp add: sim_def)
      from sim_funD [OF ih s]
      show "sim_outcome m (match (GroupNode expr groupIndex) fuel a)
          (match (shift (int m) (GroupNode expr groupIndex)) fuel b)"
      proof (cases rule: sim_outcome_cases)
        case (err e')
        then show ?thesis using Some by simp
      next
        case (ret ok a' b')
        have "position a' = position b'" using ret(3) by (simp add: sim_def)
        then show ?thesis
          using ret Some p store_capture_sim [OF ret(3) gi, of "position a" "position a'"]
          by simp
      qed
    qed
  qed
next
  case (StarNode n)
  then have ih: "sim_fun m (match n fuel) (match (shift (int m) n) fuel)" by simp
  show ?case
    unfolding sim_fun_def using star_loop_sim [OF ih] by simp
next
  case (CountNode n k)
  then have ih: "sim_fun m (match n fuel) (match (shift (int m) n) fuel)" by simp
  show ?case
    unfolding sim_fun_def
  proof (intro allI impI)
    fix a b assume s: "sim m a b"
    then have "position a = position b" by (simp add: sim_def)
    then show "sim_outcome m (match (CountNode n k) fuel a) (match (shift (int m) (CountNode n k)) fuel b)"
      using count_loop_sim [OF ih s, of "nat k" "position a"] by simp
  qed
next
  case (IgnoreCaseNode n)
  then have ih: "sim_fun m (match n fuel) (match (shift (int m) n) fuel)" by simp
  show ?case
    unfolding sim_fun_def
  proof (intro allI impI)
    fix a b assume s: "sim m a b"
    then have i: "ignoreCase a = ignoreCase b" by (simp add: sim_def)
    have "sim m (a\<lparr>ignoreCase := True\<rparr>) (b\<lparr>ignoreCase := True\<rparr>)" using s by (simp add: sim_def)
    from sim_funD [OF ih this]
    show "sim_outcome m (match (IgnoreCaseNode n) fuel a) (match (shift (int m) (IgnoreCaseNode n)) fuel b)"
    proof (cases rule: sim_outcome_cases)
      case (err e)
      then show ?thesis by simp
    next
      case (ret ok a' b')
      then show ?thesis using i by (simp add: sim_def)
    qed
  qed
next
  case (OutputGroupNode idx)
  show ?case by (simp add: sim_fun_def)
qed

lemma findMatch_from_sim:
  assumes "sim_fun m (match n fuel) (match n' fuel)" and "length caps \<le> 1"
  shows "findMatch_from n' fuel inp caps start = raise_result m (findMatch_from n fuel inp caps start)"
proof (induction "Suc (length inp) - start" arbitrary: start)
  case 0
  then have "\<not> start \<le> length inp" by simp
  then show ?case
    using assms(2)
    by (simp add: findMatch_from.simps [of n fuel inp caps start]
        findMatch_from.simps [of n' fuel inp caps start] raise_result_def raise_table_short)
next
  case (Suc k)
  then have le: "start \<le> length inp" and k: "k = Suc (length inp) - (start + 1)" by simp_all
  let ?c = "\<lparr>input = inp, position = start, captures = resize 1 caps, ignoreCase = False\<rparr>"
  have "sim m ?c ?c" by (simp add: sim_def resize_def raise_table_short)
  from sim_funD [OF assms(1) this]
  have "sim_outcome m (attempt n fuel inp caps start) (attempt n' fuel inp caps start)"
    by (simp add: attempt_def)
  then show ?case
  proof (cases rule: sim_outcome_cases)
    case (err e)
    then show ?thesis using le
      by (simp add: findMatch_from.simps [of n fuel inp caps start]
          findMatch_from.simps [of n' fuel inp caps start] raise_result_def)
  next
    case (ret ok a b)
    show ?thesis
    proof (cases ok)
      case True
      have "captures b = raise_table m (captures a)" "position a = position b"
        using ret(3) by (simp_all add: sim_def)
      then show ?thesis using le ret True
        by (simp add: findMatch_from.simps [of n fuel inp caps start]
            findMatch_from.simps [of n' fuel inp caps start] raise_result_def
            raise_table_nth0 raise_table_update0)
    next
      case False
      have "findMatch_from n' fuel inp caps (start + 1)
          = raise_result m (findMatch_from n fuel inp caps (start + 1))"
        using Suc.hyps(1) [OF k] .
      then show ?thesis using le ret False
        by (simp add: findMatch_from.simps [of n fuel inp caps start]
            findMatch_from.simps [of n' fuel inp caps start])
    qed
  qed
qed

lemma printed_raise_table:
  "printed inp 0 (raise_table m caps) = printed inp 0 caps"
  "1 \<le> k \<Longrightarrow> printed inp (k + int m) (raise_table m caps) = printed inp k caps"
  "1 \<le> k \<Longrightarrow> k \<le> int m \<Longrightarrow> printed inp k (raise_table m caps) = Inr None"
proof -
  show "printed inp 0 (raise_table m caps) = printed inp 0 caps"
    by (simp add: printed_def raise_table_nth0)
  show "printed inp (k + int m) (raise_table m caps) = printed inp k caps" if k: "1 \<le> k"
  proof (cases "k < int (length caps)")
    case True
    then have n: "1 \<le> nat k" "nat k < length caps" using k by simp_all
    have "nat (k + int m) = nat k + m" using k by (simp add: nat_add_distrib)
    then show ?thesis
      using True k raise_table_nth_raised [OF n, of m] by (simp add: printed_def)
  next
    case False
    then show ?thesis using k by (auto simp: printed_def length_raise_table)
  qed
  show "printed inp k (raise_table m caps) = Inr None" if k: "1 \<le> k" "k \<le> int m"
  proof (cases "k < int (length (raise_table m caps))")
    case True
    then have "raise_table m caps ! nat k = None"
      using k raise_table_nth_gap [of "nat k" m caps] by simp
    then show ?thesis using True by (simp add: printed_def)
  next
    case False
    then show ?thesis by (simp add: printed_def)
  qed
qed

lemma write_slot_nth: "n < length (write_slot n v xs) \<and> write_slot n v xs ! n = v"
  by (auto simp: write_slot_def length_resize)

lemma group_writes_own_slot:
  assumes "match (GroupNode (Some e) i) fuel ctx = Inr (True, ctx')" and "0 \<le> i"
  shows "nat i < length (captures ctx')"
    and "captures ctx' ! nat i = Some \<lparr>startIndex = position ctx, endIndex = position ctx', valid = True\<rparr>"
proof -
  from assms(1) obtain ctx1 where c: "ctx' = store_capture i (position ctx) (position ctx1) ctx1"
    by (auto split: sum.splits if_splits)
  have p: "position ctx' = position ctx1" unfolding c by (rule store_capture_fields(2))
  have w: "captures ctx' = write_slot (nat i)
      (Some \<lparr>startIndex = position ctx, endIndex = position ctx', valid = True\<rparr>) (captures ctx1)"
    unfolding p unfolding c using assms(2) by (rule captures_store_capture)
  show "nat i < length (captures ctx')"
    and "captures ctx' ! nat i = Some \<lparr>startIndex = position ctx, endIndex = position ctx', valid = True\<rparr>"
    unfolding w using write_slot_nth by blast+
qed

text \<open>
  Claim C2, amended. \<^verbatim>\<open>groupCounter\<close> is a static that no call resets, so a second
  compilation of the same pattern starts from the counter the first one left. When the
  first call returns and the counter stays in the range of \<^verbatim>\<open>int\<close>, the second call returns
  the same output index and the same tree with every group index raised by \<open>m\<close>, the number
  of indices the first call used. On every text, searched from an empty capture vector as
  \<^verbatim>\<open>main\<close> does, the two trees end the search the same way and at the same offset, and the
  vector that the second tree leaves is the one of the first with the slots from 1 on
  moved up by \<open>m\<close> places and \<open>m\<close> absent slots in between; slot 0, the span of the whole
  match, is the same. A group that matches writes its span into the slot of its own index,
  which for the second tree is the raised one. So the line printed for group 0 is the
  same, the line for group \<open>k + m\<close> after the second compilation is the line for group
  \<open>k \<ge> 1\<close> after the first, and nothing is printed for the groups 1 to \<open>m\<close>: the capture
  vectors and the group that \<^verbatim>\<open>\O{n}\<close> selects differ as soon as the pattern has a group.
\<close>

theorem recompile_shifts_groups:
  "(parsePattern p out g = Inr (r, out', g') \<and> 1 \<le> g \<and> g' + (g' - g) \<le> 2147483647 \<longrightarrow>
      parsePattern p out g' = Inr (map_option (shift (g' - g)) r, out', g' + (g' - g))
      \<and> (\<forall>ast. r = Some ast \<longrightarrow>
            findMatch (shift (g' - g) ast) fuel inp []
          = raise_result (nat (g' - g)) (findMatch ast fuel inp [])))
   \<and> (match (GroupNode (Some e) i) fuel ctx = Inr (True, ctx') \<and> 0 \<le> i \<longrightarrow>
        nat i < length (captures ctx')
        \<and> captures ctx' ! nat i
          = Some \<lparr>startIndex = position ctx, endIndex = position ctx', valid = True\<rparr>)
   \<and> printed inp 0 (raise_table m caps) = printed inp 0 caps
   \<and> (1 \<le> k \<longrightarrow> printed inp (k + int m) (raise_table m caps) = printed inp k caps)
   \<and> (1 \<le> k \<and> k \<le> int m \<longrightarrow> printed inp k (raise_table m caps) = Inr None)"
proof (intro conjI)
  show "parsePattern p out g = Inr (r, out', g') \<and> 1 \<le> g \<and> g' + (g' - g) \<le> 2147483647 \<longrightarrow>
      parsePattern p out g' = Inr (map_option (shift (g' - g)) r, out', g' + (g' - g))
      \<and> (\<forall>ast. r = Some ast \<longrightarrow>
            findMatch (shift (g' - g) ast) fuel inp []
          = raise_result (nat (g' - g)) (findMatch ast fuel inp []))"
  proof (intro impI, elim conjE)
    assume a: "parsePattern p out g = Inr (r, out', g')" and g: "1 \<le> g"
      and m: "g' + (g' - g) \<le> 2147483647"
    obtain cur where e: "parseExpr \<lparr>text_cur = p, pos = 0\<rparr> g = Inr (r, cur, g')"
      using a by (auto simp: parsePattern_def split: sum.splits)
    note inv = parse_numbered(1) [rule_format, OF e]
    have d: "0 \<le> g' - g" using inv by simp
    have first: "parsePattern p out g' = Inr (map_option (shift (g' - g)) r, out', g' + (g' - g))"
      using parsePattern_shift [OF a d m] by simp
    have second: "\<forall>ast. r = Some ast \<longrightarrow>
            findMatch (shift (g' - g) ast) fuel inp []
          = raise_result (nat (g' - g)) (findMatch ast fuel inp [])"
    proof (intro allI impI)
      fix ast assume "r = Some ast"
      then have "numbered ast g g'" using inv by simp
      then have "\<forall>i\<in>set (group_order ast). 1 \<le> i" using g by (auto simp: numbered_def)
      then have "sim_fun (nat (g' - g)) (match ast fuel) (match (shift (int (nat (g' - g))) ast) fuel)"
        by (rule match_shift)
      then have "sim_fun (nat (g' - g)) (match ast fuel) (match (shift (g' - g) ast) fuel)"
        using d by simp
      then show "findMatch (shift (g' - g) ast) fuel inp []
          = raise_result (nat (g' - g)) (findMatch ast fuel inp [])"
        unfolding findMatch_def by (rule findMatch_from_sim) simp
    qed
    show "parsePattern p out g' = Inr (map_option (shift (g' - g)) r, out', g' + (g' - g))
      \<and> (\<forall>ast. r = Some ast \<longrightarrow>
            findMatch (shift (g' - g) ast) fuel inp []
          = raise_result (nat (g' - g)) (findMatch ast fuel inp []))"
      using first second by blast
  qed
  show "match (GroupNode (Some e) i) fuel ctx = Inr (True, ctx') \<and> 0 \<le> i \<longrightarrow>
        nat i < length (captures ctx')
        \<and> captures ctx' ! nat i
          = Some \<lparr>startIndex = position ctx, endIndex = position ctx', valid = True\<rparr>"
    using group_writes_own_slot [of e i fuel ctx ctx'] by blast
  show "printed inp 0 (raise_table m caps) = printed inp 0 caps"
    by (rule printed_raise_table(1))
  show "1 \<le> k \<longrightarrow> printed inp (k + int m) (raise_table m caps) = printed inp k caps"
    using printed_raise_table(2) by blast
  show "1 \<le> k \<and> k \<le> int m \<longrightarrow> printed inp k (raise_table m caps) = Inr None"
    using printed_raise_table(3) by blast
qed

theorem recompile_shifts_groups_witness:
  "parsePattern ''(a)b'' 0 1
     = Inr (Some (SequenceNode [GroupNode (Some (SequenceNode [CharacterNode CHR ''a''])) 1,
                                CharacterNode CHR ''b'']), 0, 2)
   \<and> parsePattern ''(a)b'' 0 2
     = Inr (Some (SequenceNode [GroupNode (Some (SequenceNode [CharacterNode CHR ''a''])) 2,
                                CharacterNode CHR ''b'']), 0, 3)
   \<and> findMatch (SequenceNode [GroupNode (Some (SequenceNode [CharacterNode CHR ''a''])) 1,
                              CharacterNode CHR ''b'']) 0 ''cab'' []
     = Inr (Some 1, [Some \<lparr>startIndex = 1, endIndex = 3, valid = True\<rparr>,
                     Some \<lparr>startIndex = 1, endIndex = 2, valid = True\<rparr>])
   \<and> findMatch (SequenceNode [GroupNode (Some (SequenceNode [CharacterNode CHR ''a''])) 2,
                              CharacterNode CHR ''b'']) 0 ''cab'' []
     = Inr (Some 1, [Some \<lparr>startIndex = 1, endIndex = 3, valid = True\<rparr>, None,
                     Some \<lparr>startIndex = 1, endIndex = 2, valid = True\<rparr>])
   \<and> match (GroupNode (Some (CharacterNode CHR ''a'')) 2) 0
        \<lparr>input = ''cab'', position = 1, captures = [None], ignoreCase = False\<rparr>
     = Inr (True, \<lparr>input = ''cab'', position = 2,
                   captures = [None, None, Some \<lparr>startIndex = 1, endIndex = 2, valid = True\<rparr>],
                   ignoreCase = False\<rparr>)
   \<and> [None, None, Some \<lparr>startIndex = 1, endIndex = 2, valid = True\<rparr>] ! 2
     = Some \<lparr>startIndex = 1, endIndex = 2, valid = True\<rparr>
   \<and> printed ''cab'' 0 [Some \<lparr>startIndex = 1, endIndex = 3, valid = True\<rparr>, None,
                         Some \<lparr>startIndex = 1, endIndex = 2, valid = True\<rparr>] = Inr (Some ''ab'')
   \<and> printed ''cab'' 2 [Some \<lparr>startIndex = 1, endIndex = 3, valid = True\<rparr>, None,
                         Some \<lparr>startIndex = 1, endIndex = 2, valid = True\<rparr>] = Inr (Some ''a'')
   \<and> printed ''cab'' 1 [Some \<lparr>startIndex = 1, endIndex = 3, valid = True\<rparr>, None,
                         Some \<lparr>startIndex = 1, endIndex = 2, valid = True\<rparr>] = Inr None"
proof -
  let ?a = "SequenceNode [GroupNode (Some (SequenceNode [CharacterNode CHR ''a''])) 1,
                          CharacterNode CHR ''b'']"
  let ?t = "[Some \<lparr>startIndex = 1, endIndex = 3, valid = True\<rparr>,
             Some \<lparr>startIndex = 1, endIndex = 2, valid = True\<rparr>]"
  let ?c = "\<lparr>input = ''cab'', position = 1, captures = [None], ignoreCase = False\<rparr>"
  let ?c' = "\<lparr>input = ''cab'', position = 2,
              captures = [None, None, Some \<lparr>startIndex = 1, endIndex = 2, valid = True\<rparr>],
              ignoreCase = False\<rparr>"
  note inst = recompile_shifts_groups [where p = "''(a)b''" and out = 0 and g = 1 and r = "Some ?a"
      and out' = 0 and g' = 2 and fuel = 0 and inp = "''cab''" and m = 1 and caps = ?t and k = 1
      and e = "CharacterNode CHR ''a''" and i = 2 and ctx = ?c and ctx' = ?c']
  have p: "parsePattern ''(a)b'' 0 1 = Inr (Some ?a, 0, 2)" by code_simp
  have f: "findMatch ?a 0 ''cab'' [] = Inr (Some 1, ?t)"
    by (simp add: findMatch_def findMatch_from.simps attempt_def resize_def atEnd_def
        currentChar_def store_capture_def)
  have g: "match (GroupNode (Some (CharacterNode CHR ''a'')) 2) 0 ?c = Inr (True, ?c')"
    by (simp add: atEnd_def currentChar_def store_capture_def resize_def eval_nat_numeral)
  have q0: "printed ''cab'' 0 ?t = Inr (Some ''ab'')" and q1: "printed ''cab'' 1 ?t = Inr (Some ''a'')"
    by (simp_all add: printed_def)
  have r: "raise_table 1 ?t = [Some \<lparr>startIndex = 1, endIndex = 3, valid = True\<rparr>, None,
                               Some \<lparr>startIndex = 1, endIndex = 2, valid = True\<rparr>]"
    by simp
  from inst p f g q0 q1 show ?thesis by (simp add: raise_result_def r)
qed

theorem recompile_counterexample:
  "parsePattern (''(a)'' @ [CHR 0x5C] @ ''O{1}'') 0 1
     = Inr (Some (SequenceNode [GroupNode (Some (SequenceNode [CharacterNode CHR ''a''])) 1]), 1, 2)
   \<and> parsePattern (''(a)'' @ [CHR 0x5C] @ ''O{1}'') 0 2
     = Inr (Some (SequenceNode [GroupNode (Some (SequenceNode [CharacterNode CHR ''a''])) 2]), 1, 3)
   \<and> findMatch (SequenceNode [GroupNode (Some (SequenceNode [CharacterNode CHR ''a''])) 1]) 0 ''a'' []
     = Inr (Some 0, [Some \<lparr>startIndex = 0, endIndex = 1, valid = True\<rparr>,
                     Some \<lparr>startIndex = 0, endIndex = 1, valid = True\<rparr>])
   \<and> findMatch (SequenceNode [GroupNode (Some (SequenceNode [CharacterNode CHR ''a''])) 2]) 0 ''a'' []
     = Inr (Some 0, [Some \<lparr>startIndex = 0, endIndex = 1, valid = True\<rparr>, None,
                     Some \<lparr>startIndex = 0, endIndex = 1, valid = True\<rparr>])
   \<and> printed ''a'' 1 [Some \<lparr>startIndex = 0, endIndex = 1, valid = True\<rparr>,
                       Some \<lparr>startIndex = 0, endIndex = 1, valid = True\<rparr>] = Inr (Some ''a'')
   \<and> printed ''a'' 1 [Some \<lparr>startIndex = 0, endIndex = 1, valid = True\<rparr>, None,
                       Some \<lparr>startIndex = 0, endIndex = 1, valid = True\<rparr>] = Inr None"
proof (intro conjI)
  show "parsePattern (''(a)'' @ [CHR 0x5C] @ ''O{1}'') 0 1
     = Inr (Some (SequenceNode [GroupNode (Some (SequenceNode [CharacterNode CHR ''a''])) 1]), 1, 2)"
    by code_simp
  show "parsePattern (''(a)'' @ [CHR 0x5C] @ ''O{1}'') 0 2
     = Inr (Some (SequenceNode [GroupNode (Some (SequenceNode [CharacterNode CHR ''a''])) 2]), 1, 3)"
    by code_simp
qed (simp_all add: findMatch_def findMatch_from.simps attempt_def resize_def atEnd_def
      currentChar_def store_capture_def printed_def eval_nat_numeral)

end
